theory Spec2Isabelle
  imports Complex_Main "HOL-Library.AList" "HOL-Library.Sublist"
begin

section \<open>Python values and exceptions\<close>

text \<open>
  The model follows \<^verbatim>\<open>backend/uclapi/workspaces/occupeye.py\<close>.  A Python string is a
  \<^typ>\<open>string\<close>; a character stands for the code point with the same number (0 to 255).
  Wall-clock time (\<^verbatim>\<open>time.time()\<close>, and the clock of the Redis server) is a real number
  of seconds.  A populator, and a call of \<^verbatim>\<open>get_surveys\<close> or \<^verbatim>\<open>get_survey_sensors\<close>, is taken
  at one instant \<open>now\<close>; \<^verbatim>\<open>get_image\<close> is given the time of each of its commands.
\<close>

datatype error =
    BadOccupEyeRequest
  | UpstreamFailure
  | ResponseError
  | KeyError
  | IndexError
  | ValueError
  | TypeError

type_synonym dict = "(string \<times> string) list"

definition dict_get :: "dict \<Rightarrow> string \<Rightarrow> error + string" where
  "dict_get d k = (case map_of d k of None \<Rightarrow> Inl KeyError | Some v \<Rightarrow> Inr v)"

subsection \<open>\<^verbatim>\<open>str\<close>, \<^verbatim>\<open>int\<close>, \<^verbatim>\<open>str.isdigit\<close>, \<^verbatim>\<open>str.lower\<close>\<close>

definition digit_char :: "nat \<Rightarrow> char" where
  "digit_char d = char_of (48 + d)"

fun str_nat :: "nat \<Rightarrow> string" where
  "str_nat n = (if n < 10 then [digit_char n] else str_nat (n div 10) @ [digit_char (n mod 10)])"

declare str_nat.simps [simp del]

definition str_int :: "int \<Rightarrow> string" where
  "str_int i = (if i < 0 then CHR ''-'' # str_nat (nat (- i)) else str_nat (nat i))"

definition str_bool :: "bool \<Rightarrow> string" where
  "str_bool b = (if b then ''True'' else ''False'')"

definition is_decimal :: "char \<Rightarrow> bool" where
  "is_decimal c = (48 \<le> (of_char c :: nat) \<and> (of_char c :: nat) \<le> 57)"

definition digits_value :: "string \<Rightarrow> nat" where
  "digits_value s = foldl (\<lambda>acc c. 10 * acc + ((of_char c :: nat) - 48)) 0 s"

text \<open>
  \<^verbatim>\<open>int(s)\<close> on a string.  White space around the number is dropped (below code point 256
  that is tab, line feed, vertical tab, form feed, carriage return, space, and the code
  points 133 and 160).  What is left must be an optional sign followed by decimal digits, in
  which a single underscore may stand between two digits; any other string is a
  \<^verbatim>\<open>ValueError\<close>.  The number of digits is not limited.
\<close>

definition int_space :: "char \<Rightarrow> bool" where
  "int_space c = ((of_char c :: nat) \<in> {9, 10, 11, 12, 13, 32, 133, 160})"

definition strip_space :: "string \<Rightarrow> string" where
  "strip_space s = rev (dropWhile int_space (rev (dropWhile int_space s)))"

fun digit_groups :: "string \<Rightarrow> bool" where
  "digit_groups [] = False"
| "digit_groups [c] = is_decimal c"
| "digit_groups (c # d # cs) =
     (is_decimal c \<and> (if d = CHR ''_'' then digit_groups cs else digit_groups (d # cs)))"

definition digits_int :: "string \<Rightarrow> error + int" where
  "digits_int s =
     (if digit_groups s then Inr (int (digits_value (filter (\<lambda>c. c \<noteq> CHR ''_'') s)))
      else Inl ValueError)"

fun signed_int :: "string \<Rightarrow> error + int" where
  "signed_int [] = Inl ValueError"
| "signed_int (c # cs) =
     (if c = CHR ''-'' then (case digits_int cs of Inl e \<Rightarrow> Inl e | Inr v \<Rightarrow> Inr (- v))
      else if c = CHR ''+'' then digits_int cs
      else digits_int (c # cs))"

definition py_int :: "string \<Rightarrow> error + int" where
  "py_int s = signed_int (strip_space s)"

text \<open>
  \<^verbatim>\<open>str.isdigit()\<close>: true iff the string is not empty and every character is a digit.
  Below code point 256 the digits are \<^verbatim>\<open>0\<close> to \<^verbatim>\<open>9\<close> and the superscripts two, three
  and one (code points 178, 179 and 185).
\<close>

definition isdigit_char :: "char \<Rightarrow> bool" where
  "isdigit_char c = (is_decimal c \<or> (of_char c :: nat) \<in> {178, 179, 185})"

definition isdigit :: "string \<Rightarrow> bool" where
  "isdigit s = (s \<noteq> [] \<and> list_all isdigit_char s)"

text \<open>
  \<^verbatim>\<open>str.lower()\<close>: below code point 256 the upper-case letters are \<^verbatim>\<open>A\<close> to \<^verbatim>\<open>Z\<close> and the
  code points 192 to 214 and 216 to 222; the lower-case letter is 32 further on.
\<close>

definition lower_char :: "char \<Rightarrow> char" where
  "lower_char c =
     (let n = (of_char c :: nat) in
      if (65 \<le> n \<and> n \<le> 90) \<or> (192 \<le> n \<and> n \<le> 214) \<or> (216 \<le> n \<and> n \<le> 222)
      then char_of (n + 32) else c)"

definition lower :: "string \<Rightarrow> string" where
  "lower s = map lower_char s"

text \<open>\<^verbatim>\<open>int(x)\<close> on a float truncates towards zero.\<close>

definition int_of_float :: "real \<Rightarrow> int" where
  "int_of_float x = (if 0 \<le> x then \<lfloor>x\<rfloor> else \<lceil>x\<rceil>)"

section \<open>The Redis store\<close>

text \<open>
  A key holds a string, a list or a hash, with an optional absolute expiry time.  An entry
  whose expiry time has been reached is not visible to any command.
\<close>

datatype rvalue = RString string | RList "string list" | RHash dict

type_synonym entry = "rvalue \<times> real option"
type_synonym redis = "string \<Rightarrow> entry option"

definition visible :: "real \<Rightarrow> entry option \<Rightarrow> entry option" where
  "visible now e =
     (case e of
        None \<Rightarrow> None
      | Some (v, None) \<Rightarrow> Some (v, None)
      | Some (v, Some t) \<Rightarrow> if now < t then Some (v, Some t) else None)"

datatype cmd =
    DEL string
  | SET string string
  | HMSET string dict
  | RPUSH string string
  | LPUSH string string
  | EXPIRE string nat
  | HGETALL string

datatype reply = ROk | RInt int | RDict dict | RWrongType

fun key_of :: "cmd \<Rightarrow> string" where
  "key_of (DEL k) = k"
| "key_of (SET k v) = k"
| "key_of (HMSET k m) = k"
| "key_of (RPUSH k v) = k"
| "key_of (LPUSH k v) = k"
| "key_of (EXPIRE k ttl) = k"
| "key_of (HGETALL k) = k"

definition hash_update :: "dict \<Rightarrow> dict \<Rightarrow> dict" where
  "hash_update m h = fold (\<lambda>(f, v). AList.update f v) m h"

text \<open>The effect of one command on the (visible) entry of its key.\<close>

fun apply_cmd :: "real \<Rightarrow> cmd \<Rightarrow> entry option \<Rightarrow> reply \<times> entry option" where
  "apply_cmd now (DEL k) e = (RInt (if e = None then 0 else 1), None)"
| "apply_cmd now (SET k v) e = (ROk, Some (RString v, None))"
| "apply_cmd now (HMSET k m) e =
     (case e of
        None \<Rightarrow> (ROk, Some (RHash (hash_update m []), None))
      | Some (RHash h, t) \<Rightarrow> (ROk, Some (RHash (hash_update m h), t))
      | Some (RString s, t) \<Rightarrow> (RWrongType, e)
      | Some (RList xs, t) \<Rightarrow> (RWrongType, e))"
| "apply_cmd now (RPUSH k v) e =
     (case e of
        None \<Rightarrow> (RInt 1, Some (RList [v], None))
      | Some (RList xs, t) \<Rightarrow> (RInt (int (length xs) + 1), Some (RList (xs @ [v]), t))
      | Some (RString s, t) \<Rightarrow> (RWrongType, e)
      | Some (RHash h, t) \<Rightarrow> (RWrongType, e))"
| "apply_cmd now (LPUSH k v) e =
     (case e of
        None \<Rightarrow> (RInt 1, Some (RList [v], None))
      | Some (RList xs, t) \<Rightarrow> (RInt (int (length xs) + 1), Some (RList (v # xs), t))
      | Some (RString s, t) \<Rightarrow> (RWrongType, e)
      | Some (RHash h, t) \<Rightarrow> (RWrongType, e))"
| "apply_cmd now (EXPIRE k ttl) e =
     (case e of
        None \<Rightarrow> (RInt 0, None)
      | Some (v, t) \<Rightarrow> (RInt 1, Some (v, Some (now + real ttl))))"
| "apply_cmd now (HGETALL k) e =
     (case e of
        None \<Rightarrow> (RDict [], e)
      | Some (RHash h, t) \<Rightarrow> (RDict h, e)
      | Some (RString s, t) \<Rightarrow> (RWrongType, e)
      | Some (RList xs, t) \<Rightarrow> (RWrongType, e))"

definition exec_cmd :: "real \<Rightarrow> cmd \<Rightarrow> redis \<Rightarrow> reply \<times> redis" where
  "exec_cmd now c db =
     (case apply_cmd now c (visible now (db (key_of c))) of
        (rep, e') \<Rightarrow> (rep, db(key_of c := e')))"

text \<open>
  A pipeline buffers commands; \<^verbatim>\<open>execute()\<close> runs all of them in order as one
  transaction and then raises the first error reply, if there is one.
\<close>

fun run_cmds :: "real \<Rightarrow> cmd list \<Rightarrow> redis \<Rightarrow> reply list \<times> redis" where
  "run_cmds now [] db = ([], db)"
| "run_cmds now (c # cs) db =
     (case exec_cmd now c db of
        (rep, db') \<Rightarrow> (case run_cmds now cs db' of (reps, db'') \<Rightarrow> (rep # reps, db'')))"

definition execute :: "real \<Rightarrow> cmd list \<Rightarrow> redis \<Rightarrow> (error + reply list) \<times> redis" where
  "execute now cmds db =
     (case run_cmds now cmds db of
        (reps, db') \<Rightarrow> (if RWrongType \<in> set reps then Inl ResponseError else Inr reps, db'))"

subsection \<open>Commands issued outside a pipeline\<close>

definition lookup :: "real \<Rightarrow> redis \<Rightarrow> string \<Rightarrow> rvalue option" where
  "lookup now db k = map_option fst (visible now (db k))"

definition r_get :: "real \<Rightarrow> redis \<Rightarrow> string \<Rightarrow> error + string option" where
  "r_get now db k =
     (case lookup now db k of
        None \<Rightarrow> Inr None
      | Some (RString s) \<Rightarrow> Inr (Some s)
      | Some (RList xs) \<Rightarrow> Inl ResponseError
      | Some (RHash h) \<Rightarrow> Inl ResponseError)"

definition r_exists :: "real \<Rightarrow> redis \<Rightarrow> string \<Rightarrow> bool" where
  "r_exists now db k = (lookup now db k \<noteq> None)"

definition r_llen :: "real \<Rightarrow> redis \<Rightarrow> string \<Rightarrow> error + nat" where
  "r_llen now db k =
     (case lookup now db k of
        None \<Rightarrow> Inr 0
      | Some (RList xs) \<Rightarrow> Inr (length xs)
      | Some (RString s) \<Rightarrow> Inl ResponseError
      | Some (RHash h) \<Rightarrow> Inl ResponseError)"

text \<open>\<^verbatim>\<open>LRANGE\<close>: both ends inclusive, negative indices count from the end.\<close>

definition list_range :: "string list \<Rightarrow> int \<Rightarrow> int \<Rightarrow> string list" where
  "list_range xs start stop =
     (let n = int (length xs);
          s = (if start < 0 then max 0 (n + start) else start);
          e = (if stop < 0 then n + stop else min stop (n - 1))
      in if e < s then [] else take (nat (e - s + 1)) (drop (nat s) xs))"

definition r_lrange :: "real \<Rightarrow> redis \<Rightarrow> string \<Rightarrow> int \<Rightarrow> int \<Rightarrow> error + string list" where
  "r_lrange now db k start stop =
     (case lookup now db k of
        None \<Rightarrow> Inr []
      | Some (RList xs) \<Rightarrow> Inr (list_range xs start stop)
      | Some (RString s) \<Rightarrow> Inl ResponseError
      | Some (RHash h) \<Rightarrow> Inl ResponseError)"

definition r_hgetall :: "real \<Rightarrow> redis \<Rightarrow> string \<Rightarrow> error + dict" where
  "r_hgetall now db k =
     (case lookup now db k of
        None \<Rightarrow> Inr []
      | Some (RHash h) \<Rightarrow> Inr h
      | Some (RString s) \<Rightarrow> Inl ResponseError
      | Some (RList xs) \<Rightarrow> Inl ResponseError)"

definition r_set :: "real \<Rightarrow> redis \<Rightarrow> string \<Rightarrow> string \<Rightarrow> redis" where
  "r_set now db k v = snd (exec_cmd now (SET k v) db)"

section \<open>The upstream service\<close>

text \<open>
  The JSON objects the upstream endpoints return, with the fields the program reads.  An
  endpoint that fails (connection error, a body that is not the expected JSON) is \<open>None\<close>.
\<close>

record survey_json =
  SurveyID :: int
  Active :: bool
  Name :: string
  StartTime :: string
  EndTime :: string

record map_json =
  MapID :: int
  MapName :: string
  ImageID :: int

record sensor_json =
  HardwareID :: int
  SensorID :: int
  LastTriggerType :: string
  LastTriggerTime :: string

record map_item_json =
  ItemHardwareID :: int
  X :: int
  Y :: int

record image_response =
  content_type_header :: "string option"
  content :: "string option"

record upstream =
  token_endpoint :: "(string \<times> int) option"
  surveys_endpoint :: "survey_json list option"
  maps_endpoint :: "string \<Rightarrow> map_json list option"
  survey_sensors_latest_endpoint :: "string \<Rightarrow> sensor_json list option"
  map_endpoint :: "string \<Rightarrow> map_item_json list option"
  images_endpoint :: "string \<Rightarrow> image_response option"

datatype request =
    PostToken
  | GetSurveys
  | GetMaps string
  | GetSurveySensorsLatest string
  | GetMap string
  | GetImage string

section \<open>\<^verbatim>\<open>OccupEyeApi\<close>\<close>

text \<open>
  The object: its Redis connection \<^verbatim>\<open>self.r\<close> (here the store itself), the credential, and
  the list of HTTP requests it has sent so far (oldest first).
\<close>

record api =
  r :: redis
  access_token :: "string option"
  access_token_expiry :: "int option"
  sent :: "request list"

definition SURVEY_TTL :: nat where "SURVEY_TTL = 86400"
definition IMAGE_TTL :: nat where "IMAGE_TTL = 172800"
definition SENSOR_STATUS_TTL :: nat where "SENSOR_STATUS_TTL = 60"

definition str2bool :: "string \<Rightarrow> bool" where
  "str2bool v = (lower v \<in> set [''yes'', ''true'', ''t'', ''1''])"

subsection \<open>Token manager\<close>

definition get_token :: "upstream \<Rightarrow> real \<Rightarrow> api \<Rightarrow> (error + unit) \<times> api" where
  "get_token up now st =
     (let st1 = st\<lparr>sent := sent st @ [PostToken]\<rparr> in
      case token_endpoint up of
        None \<Rightarrow> (Inl UpstreamFailure, st1)
      | Some (tok, expires_in) \<Rightarrow>
          (let expiry = int_of_float now + expires_in;
               db1 = r_set now (r st1) ''occupeye:access_token'' tok;
               db2 = r_set now db1 ''occupeye:access_token_expiry'' (str_int expiry)
           in (Inr (), st1\<lparr>access_token := Some tok, access_token_expiry := Some expiry,
                           r := db2\<rparr>)))"

definition token_valid :: "real \<Rightarrow> api \<Rightarrow> error + bool" where
  "token_valid now st =
     (case access_token st of
        None \<Rightarrow> Inr False
      | Some tok \<Rightarrow>
          if tok = [] then Inr False
          else (case access_token_expiry st of
                  None \<Rightarrow> Inl TypeError
                | Some expiry \<Rightarrow> if now > real_of_int expiry then Inr False else Inr True))"

definition bearer :: "api \<Rightarrow> (error + string) \<times> api" where
  "bearer st =
     (case access_token st of
        None \<Rightarrow> (Inl TypeError, st)
      | Some tok \<Rightarrow> (Inr (''Bearer '' @ tok), st))"

definition get_bearer_token :: "upstream \<Rightarrow> real \<Rightarrow> api \<Rightarrow> (error + string) \<times> api" where
  "get_bearer_token up now st =
     (case token_valid now st of
        Inl e \<Rightarrow> (Inl e, st)
      | Inr True \<Rightarrow> bearer st
      | Inr False \<Rightarrow>
          (case get_token up now st of
             (Inl e, st') \<Rightarrow> (Inl e, st')
           | (Inr u, st') \<Rightarrow> bearer st'))"

definition init :: "bool \<Rightarrow> upstream \<Rightarrow> real \<Rightarrow> redis \<Rightarrow> (error + unit) \<times> api" where
  "init test_mode up now db =
     (let st = \<lparr>r = db, access_token = None, access_token_expiry = None, sent = []\<rparr> in
      if test_mode then (Inr (), st)
      else
        (case r_get now db ''occupeye:access_token'' of
           Inl e \<Rightarrow> (Inl e, st)
         | Inr tok \<Rightarrow>
             (case r_get now db ''occupeye:access_token_expiry'' of
                Inl e \<Rightarrow> (Inl e, st\<lparr>access_token := tok\<rparr>)
              | Inr exp_str \<Rightarrow>
                  (case (if exp_str = None \<or> exp_str = Some [] then Inr None
                         else map_sum id Some (py_int (the exp_str))) of
                     Inl e \<Rightarrow> (Inl e, st\<lparr>access_token := tok\<rparr>)
                   | Inr expiry \<Rightarrow>
                       (let st1 = st\<lparr>access_token := tok, access_token_expiry := expiry\<rparr> in
                        if tok = None \<or> tok = Some [] \<or> expiry = None \<or> expiry = Some 0
                        then get_token up now st1
                        else (Inr (), st1))))))"

subsection \<open>Survey and map populator\<close>

definition survey_maps_key :: "string \<Rightarrow> string" where
  "survey_maps_key survey_id = ''occupeye:surveys:'' @ survey_id @ '':maps''"

definition survey_map_key :: "string \<Rightarrow> string \<Rightarrow> string" where
  "survey_map_key survey_id map_id = ''occupeye:surveys:'' @ survey_id @ '':maps:'' @ map_id"

definition survey_key :: "string \<Rightarrow> string" where
  "survey_key survey_id = ''occupeye:surveys:'' @ survey_id"

definition map_cmds :: "int \<Rightarrow> map_json \<Rightarrow> cmd list" where
  "map_cmds survey_id survey_map =
     (let survey_map_id = survey_map_key (str_int survey_id) (str_int (MapID survey_map)) in
      [HMSET survey_map_id
         [(''id'', str_int (MapID survey_map)),
          (''name'', MapName survey_map),
          (''image_id'', str_int (ImageID survey_map))],
       RPUSH (survey_maps_key (str_int survey_id)) (str_int (MapID survey_map)),
       EXPIRE survey_map_id SURVEY_TTL])"

definition maps_pipeline :: "int \<Rightarrow> map_json list \<Rightarrow> cmd list" where
  "maps_pipeline survey_id survey_maps_data =
     DEL (survey_maps_key (str_int survey_id))
       # concat (map (map_cmds survey_id) survey_maps_data)
       @ [EXPIRE (survey_maps_key (str_int survey_id)) SURVEY_TTL]"

definition cache_maps_for_survey ::
  "upstream \<Rightarrow> real \<Rightarrow> int \<Rightarrow> api \<Rightarrow> (error + unit) \<times> api" where
  "cache_maps_for_survey up now survey_id st =
     (case get_bearer_token up now st of
        (Inl e, st1) \<Rightarrow> (Inl e, st1)
      | (Inr authorization, st1) \<Rightarrow>
          (let st2 = st1\<lparr>sent := sent st1 @ [GetMaps (str_int survey_id)]\<rparr> in
           case maps_endpoint up (str_int survey_id) of
             None \<Rightarrow> (Inl UpstreamFailure, st2)
           | Some survey_maps_data \<Rightarrow>
               (case execute now (maps_pipeline survey_id survey_maps_data) (r st2) of
                  (Inl e, db) \<Rightarrow> (Inl e, st2\<lparr>r := db\<rparr>)
                | (Inr reps, db) \<Rightarrow> (Inr (), st2\<lparr>r := db\<rparr>))))"

definition survey_cmds :: "survey_json \<Rightarrow> cmd list" where
  "survey_cmds survey =
     (let survey_key = survey_key (str_int (SurveyID survey)) in
      [HMSET survey_key
         [(''id'', str_int (SurveyID survey)),
          (''active'', str_bool (Active survey)),
          (''name'', Name survey),
          (''start_time'', StartTime survey),
          (''end_time'', EndTime survey)],
       EXPIRE survey_key SURVEY_TTL,
       LPUSH ''occupeye:surveys'' (str_int (SurveyID survey))])"

text \<open>
  The loop of \<^verbatim>\<open>_cache_survey_data\<close>: the commands of the outer pipeline are only
  buffered, while each call of \<^verbatim>\<open>_cache_maps_for_survey\<close> executes its own pipeline.
\<close>

fun cache_surveys_loop ::
  "upstream \<Rightarrow> real \<Rightarrow> survey_json list \<Rightarrow> cmd list \<Rightarrow> api \<Rightarrow> (error + cmd list) \<times> api" where
  "cache_surveys_loop up now [] pipeline st = (Inr pipeline, st)"
| "cache_surveys_loop up now (survey # surveys) pipeline st =
     (case cache_maps_for_survey up now (SurveyID survey) st of
        (Inl e, st') \<Rightarrow> (Inl e, st')
      | (Inr u, st') \<Rightarrow> cache_surveys_loop up now surveys (pipeline @ survey_cmds survey) st')"

definition cache_survey_data :: "upstream \<Rightarrow> real \<Rightarrow> api \<Rightarrow> (error + unit) \<times> api" where
  "cache_survey_data up now st =
     (case get_bearer_token up now st of
        (Inl e, st1) \<Rightarrow> (Inl e, st1)
      | (Inr authorization, st1) \<Rightarrow>
          (let st2 = st1\<lparr>sent := sent st1 @ [GetSurveys]\<rparr> in
           case surveys_endpoint up of
             None \<Rightarrow> (Inl UpstreamFailure, st2)
           | Some surveys_data \<Rightarrow>
               (case cache_surveys_loop up now surveys_data [DEL ''occupeye:surveys''] st2 of
                  (Inl e, st3) \<Rightarrow> (Inl e, st3)
                | (Inr pipeline, st3) \<Rightarrow>
                    (case execute now (pipeline @ [EXPIRE ''occupeye:surveys'' SURVEY_TTL])
                            (r st3) of
                       (Inl e, db) \<Rightarrow> (Inl e, st3\<lparr>r := db\<rparr>)
                     | (Inr reps, db) \<Rightarrow> (Inr (), st3\<lparr>r := db\<rparr>)))))"

subsection \<open>\<^verbatim>\<open>get_surveys\<close>\<close>

record map_dict =
  m_id :: int
  m_name :: string
  m_image_id :: int

record survey_dict =
  s_id :: int
  s_name :: string
  s_active :: bool
  s_start_time :: string
  s_end_time :: string
  s_maps :: "map_dict list"

definition read_map :: "real \<Rightarrow> redis \<Rightarrow> string \<Rightarrow> string \<Rightarrow> error + map_dict" where
  "read_map now db survey_id survey_map_id =
     (case r_hgetall now db (survey_map_key survey_id survey_map_id) of
        Inl e \<Rightarrow> Inl e
      | Inr survey_map \<Rightarrow>
     (case dict_get survey_map ''id'' of
        Inl e \<Rightarrow> Inl e
      | Inr id_str \<Rightarrow>
     (case py_int id_str of
        Inl e \<Rightarrow> Inl e
      | Inr id_int \<Rightarrow>
     (case dict_get survey_map ''name'' of
        Inl e \<Rightarrow> Inl e
      | Inr name \<Rightarrow>
     (case dict_get survey_map ''image_id'' of
        Inl e \<Rightarrow> Inl e
      | Inr image_str \<Rightarrow>
     (case py_int image_str of
        Inl e \<Rightarrow> Inl e
      | Inr image_int \<Rightarrow>
          Inr \<lparr>m_id = id_int, m_name = name, m_image_id = image_int\<rparr>))))))"

fun read_maps :: "real \<Rightarrow> redis \<Rightarrow> string \<Rightarrow> string list \<Rightarrow> error + map_dict list" where
  "read_maps now db survey_id [] = Inr []"
| "read_maps now db survey_id (survey_map_id # rest) =
     (case read_map now db survey_id survey_map_id of
        Inl e \<Rightarrow> Inl e
      | Inr m \<Rightarrow>
          (case read_maps now db survey_id rest of
             Inl e \<Rightarrow> Inl e
           | Inr ms \<Rightarrow> Inr (m # ms)))"

definition read_survey :: "real \<Rightarrow> redis \<Rightarrow> string \<Rightarrow> error + survey_dict" where
  "read_survey now db survey_id =
     (case r_hgetall now db (survey_key survey_id) of
        Inl e \<Rightarrow> Inl e
      | Inr survey_data \<Rightarrow>
     (case dict_get survey_data ''id'' of
        Inl e \<Rightarrow> Inl e
      | Inr id_str \<Rightarrow>
     (case py_int id_str of
        Inl e \<Rightarrow> Inl e
      | Inr id_int \<Rightarrow>
     (case dict_get survey_data ''name'' of
        Inl e \<Rightarrow> Inl e
      | Inr name \<Rightarrow>
     (case dict_get survey_data ''active'' of
        Inl e \<Rightarrow> Inl e
      | Inr active \<Rightarrow>
     (case dict_get survey_data ''start_time'' of
        Inl e \<Rightarrow> Inl e
      | Inr start_time \<Rightarrow>
     (case dict_get survey_data ''end_time'' of
        Inl e \<Rightarrow> Inl e
      | Inr end_time \<Rightarrow>
     (case r_llen now db (survey_maps_key survey_id) of
        Inl e \<Rightarrow> Inl e
      | Inr n \<Rightarrow>
     (case r_lrange now db (survey_maps_key survey_id) 0 (int n) of
        Inl e \<Rightarrow> Inl e
      | Inr survey_map_ids \<Rightarrow>
     (case read_maps now db survey_id survey_map_ids of
        Inl e \<Rightarrow> Inl e
      | Inr survey_maps \<Rightarrow>
          Inr \<lparr>s_id = id_int, s_name = name, s_active = str2bool active,
               s_start_time = start_time, s_end_time = end_time,
               s_maps = survey_maps\<rparr>))))))))))"

fun read_surveys :: "real \<Rightarrow> redis \<Rightarrow> string list \<Rightarrow> error + survey_dict list" where
  "read_surveys now db [] = Inr []"
| "read_surveys now db (survey_id # rest) =
     (case read_survey now db survey_id of
        Inl e \<Rightarrow> Inl e
      | Inr s \<Rightarrow>
          (case read_surveys now db rest of
             Inl e \<Rightarrow> Inl e
           | Inr ss \<Rightarrow> Inr (s # ss)))"

definition serve_surveys :: "real \<Rightarrow> api \<Rightarrow> (error + survey_dict list) \<times> api" where
  "serve_surveys now st =
     (case r_llen now (r st) ''occupeye:surveys'' of
        Inl e \<Rightarrow> (Inl e, st)
      | Inr n \<Rightarrow>
          (case r_lrange now (r st) ''occupeye:surveys'' 0 (int n - 1) of
             Inl e \<Rightarrow> (Inl e, st)
           | Inr survey_ids \<Rightarrow> (read_surveys now (r st) survey_ids, st)))"

definition get_surveys :: "upstream \<Rightarrow> real \<Rightarrow> api \<Rightarrow> (error + survey_dict list) \<times> api" where
  "get_surveys up now st =
     (case r_llen now (r st) ''occupeye:surveys'' of
        Inl e \<Rightarrow> (Inl e, st)
      | Inr n \<Rightarrow>
          if n = 0 then
            (case cache_survey_data up now st of
               (Inl e, st') \<Rightarrow> (Inl e, st')
             | (Inr u, st') \<Rightarrow> serve_surveys now st')
          else serve_surveys now st)"

subsection \<open>Image populator and \<^verbatim>\<open>get_image\<close>\<close>

definition b64_char :: "nat \<Rightarrow> char" where
  "b64_char n =
     ''ABCDEFGHIJKLMNOPQRSTUVWXYZabcdefghijklmnopqrstuvwxyz0123456789+/'' ! (n mod 64)"

fun b64encode :: "string \<Rightarrow> string" where
  "b64encode [] = []"
| "b64encode [a] =
     (let n = (of_char a :: nat) * 65536 in
      [b64_char (n div 262144), b64_char (n div 4096), CHR ''='', CHR ''=''])"
| "b64encode [a, b] =
     (let n = (of_char a :: nat) * 65536 + (of_char b :: nat) * 256 in
      [b64_char (n div 262144), b64_char (n div 4096), b64_char (n div 64), CHR ''=''])"
| "b64encode (a # b # c # rest) =
     (let n = (of_char a :: nat) * 65536 + (of_char b :: nat) * 256 + (of_char c :: nat) in
      [b64_char (n div 262144), b64_char (n div 4096), b64_char (n div 64), b64_char n]
        @ b64encode rest)"

definition image_base64_key :: "string \<Rightarrow> string" where
  "image_base64_key image_id = ''occupeye:image:'' @ image_id @ '':base64''"

definition image_content_type_key :: "string \<Rightarrow> string" where
  "image_content_type_key image_id = ''occupeye:image:'' @ image_id @ '':content_type''"

definition image_pipeline :: "string \<Rightarrow> string \<Rightarrow> string \<Rightarrow> cmd list" where
  "image_pipeline image_id image_b64 content_type =
     [SET (image_base64_key image_id) image_b64,
      EXPIRE (image_base64_key image_id) IMAGE_TTL,
      SET (image_content_type_key image_id) content_type,
      EXPIRE (image_content_type_key image_id) IMAGE_TTL]"

definition cache_image :: "upstream \<Rightarrow> real \<Rightarrow> string \<Rightarrow> api \<Rightarrow> (error + unit) \<times> api" where
  "cache_image up now image_id st =
     (case get_bearer_token up now st of
        (Inl e, st1) \<Rightarrow> (Inl e, st1)
      | (Inr authorization, st1) \<Rightarrow>
          (let st2 = st1\<lparr>sent := sent st1 @ [GetImage image_id]\<rparr> in
           case images_endpoint up image_id of
             None \<Rightarrow> (Inl BadOccupEyeRequest, st2)
           | Some request \<Rightarrow>
               (case content_type_header request of
                  None \<Rightarrow> (Inl BadOccupEyeRequest, st2)
                | Some content_type \<Rightarrow>
                    (case content request of
                       None \<Rightarrow> (Inl UpstreamFailure, st2)
                     | Some raw_image \<Rightarrow>
                         (case execute now
                                 (image_pipeline image_id (b64encode raw_image) content_type)
                                 (r st2) of
                            (Inl e, db) \<Rightarrow> (Inl e, st2\<lparr>r := db\<rparr>)
                          | (Inr reps, db) \<Rightarrow> (Inr (), st2\<lparr>r := db\<rparr>))))))"

text \<open>
  \<^verbatim>\<open>get_image\<close> sends its commands to the store one after the other, outside any pipeline:
  \<^verbatim>\<open>EXISTS\<close> at the time \<open>t_exists\<close>, then (after the populator, which runs at \<open>t_cache\<close>,
  if the payload was missing) \<^verbatim>\<open>GET\<close> of the payload at \<open>t_base64\<close> and \<^verbatim>\<open>GET\<close> of the content
  type at \<open>t_content_type\<close>.
\<close>

definition read_image ::
  "real \<Rightarrow> real \<Rightarrow> string \<Rightarrow> api \<Rightarrow> (error + string option \<times> string option) \<times> api" where
  "read_image t_base64 t_content_type image_id st =
     (case r_get t_base64 (r st) (image_base64_key image_id) of
        Inl e \<Rightarrow> (Inl e, st)
      | Inr image_b64 \<Rightarrow>
          (case r_get t_content_type (r st) (image_content_type_key image_id) of
             Inl e \<Rightarrow> (Inl e, st)
           | Inr content_type \<Rightarrow> (Inr (image_b64, content_type), st)))"

definition get_image ::
  "upstream \<Rightarrow> real \<Rightarrow> real \<Rightarrow> real \<Rightarrow> real \<Rightarrow> string \<Rightarrow> api
     \<Rightarrow> (error + string option \<times> string option) \<times> api" where
  "get_image up t_exists t_cache t_base64 t_content_type image_id st =
     (if \<not> isdigit image_id then (Inl BadOccupEyeRequest, st)
      else if \<not> r_exists t_exists (r st) (image_base64_key image_id) then
        (case cache_image up t_cache image_id st of
           (Inl e, st') \<Rightarrow> (Inl e, st')
         | (Inr u, st') \<Rightarrow> read_image t_base64 t_content_type image_id st')
      else read_image t_base64 t_content_type image_id st)"

subsection \<open>Sensor state populator\<close>

definition survey_sensors_key :: "string \<Rightarrow> string" where
  "survey_sensors_key survey_id = ''occupeye:surveys:'' @ survey_id @ '':sensors''"

definition sensor_data_key :: "string \<Rightarrow> string \<Rightarrow> string" where
  "sensor_data_key survey_id hw =
     ''occupeye:surveys:'' @ survey_id @ '':sensors:'' @ hw @ '':data''"

definition sensor_status_key :: "string \<Rightarrow> string \<Rightarrow> string" where
  "sensor_status_key survey_id hw =
     ''occupeye:surveys:'' @ survey_id @ '':sensors:'' @ hw @ '':status''"

definition sensor_cmds :: "string \<Rightarrow> sensor_json \<Rightarrow> cmd list" where
  "sensor_cmds survey_id sensor_data =
     (let hw = str_int (HardwareID sensor_data) in
      [HMSET (sensor_data_key survey_id hw)
         [(''hardware_id'', hw),
          (''sensor_id'', str_int (SensorID sensor_data))],
       HMSET (sensor_status_key survey_id hw)
         [(''id'', hw),
          (''last_trigger_type'', LastTriggerType sensor_data),
          (''last_trigger_timestamp'', LastTriggerTime sensor_data)],
       RPUSH (survey_sensors_key survey_id) hw,
       EXPIRE (sensor_data_key survey_id hw) SURVEY_TTL,
       EXPIRE (sensor_status_key survey_id hw) SENSOR_STATUS_TTL])"

definition sensor_states_pipeline :: "string \<Rightarrow> sensor_json list \<Rightarrow> cmd list" where
  "sensor_states_pipeline survey_id all_sensors_data =
     DEL (survey_sensors_key survey_id)
       # concat (map (sensor_cmds survey_id) all_sensors_data)
       @ [EXPIRE (survey_sensors_key survey_id) SURVEY_TTL]"

definition cache_all_survey_sensor_states ::
  "upstream \<Rightarrow> real \<Rightarrow> string \<Rightarrow> api \<Rightarrow> (error + unit) \<times> api" where
  "cache_all_survey_sensor_states up now survey_id st =
     (case get_bearer_token up now st of
        (Inl e, st1) \<Rightarrow> (Inl e, st1)
      | (Inr authorization, st1) \<Rightarrow>
          (let st2 = st1\<lparr>sent := sent st1 @ [GetSurveySensorsLatest survey_id]\<rparr> in
           case survey_sensors_latest_endpoint up survey_id of
             None \<Rightarrow> (Inl UpstreamFailure, st2)
           | Some all_sensors_data \<Rightarrow>
               (case execute now (sensor_states_pipeline survey_id all_sensors_data) (r st2) of
                  (Inl e, db) \<Rightarrow> (Inl e, st2\<lparr>r := db\<rparr>)
                | (Inr reps, db) \<Rightarrow> (Inr (), st2\<lparr>r := db\<rparr>))))"

definition map_sensors_key :: "string \<Rightarrow> string \<Rightarrow> string" where
  "map_sensors_key survey_id map_id =
     ''occupeye:surveys:'' @ survey_id @ '':maps:'' @ map_id @ '':sensors''"

definition sensor_properties_key :: "string \<Rightarrow> string \<Rightarrow> string \<Rightarrow> string" where
  "sensor_properties_key survey_id map_id hw =
     map_sensors_key survey_id map_id @ '':'' @ hw @ '':properties''"

definition map_item_cmds :: "string \<Rightarrow> string \<Rightarrow> map_item_json \<Rightarrow> cmd list" where
  "map_item_cmds survey_id map_id map_sensor_data =
     (let hw = str_int (ItemHardwareID map_sensor_data) in
      [RPUSH (map_sensors_key survey_id map_id) hw,
       HMSET (sensor_properties_key survey_id map_id hw)
         [(''id'', hw),
          (''x_pos'', str_int (X map_sensor_data)),
          (''y_pos'', str_int (Y map_sensor_data))],
       EXPIRE (sensor_properties_key survey_id map_id hw) SURVEY_TTL])"

definition map_sensors_pipeline :: "string \<Rightarrow> string \<Rightarrow> map_item_json list \<Rightarrow> cmd list" where
  "map_sensors_pipeline survey_id map_id items =
     DEL (map_sensors_key survey_id map_id)
       # concat (map (map_item_cmds survey_id map_id) items)
       @ [EXPIRE (map_sensors_key survey_id map_id) SENSOR_STATUS_TTL]"

definition cache_sensors_for_map ::
  "upstream \<Rightarrow> real \<Rightarrow> string \<Rightarrow> string \<Rightarrow> api \<Rightarrow> (error + unit) \<times> api" where
  "cache_sensors_for_map up now survey_id map_id st =
     (case get_bearer_token up now st of
        (Inl e, st1) \<Rightarrow> (Inl e, st1)
      | (Inr authorization, st1) \<Rightarrow>
          (let st2 = st1\<lparr>sent := sent st1 @ [GetMap map_id]\<rparr> in
           case map_endpoint up map_id of
             None \<Rightarrow> (Inl UpstreamFailure, st2)
           | Some items \<Rightarrow>
               (case execute now (map_sensors_pipeline survey_id map_id items) (r st2) of
                  (Inl e, db) \<Rightarrow> (Inl e, st2\<lparr>r := db\<rparr>)
                | (Inr reps, db) \<Rightarrow> (Inr (), st2\<lparr>r := db\<rparr>))))"

subsection \<open>\<^verbatim>\<open>get_survey_sensors\<close>\<close>

type_synonym sensors = "(string \<times> dict) list"

record map_sensors =
  map_data :: dict
  sensors_of :: sensors

fun reply_dict :: "reply \<Rightarrow> dict" where
  "reply_dict (RDict d) = d"
| "reply_dict ROk = []"
| "reply_dict (RInt n) = []"
| "reply_dict RWrongType = []"

text \<open>\<^verbatim>\<open>for result in pipeline.execute(): sensors[result['id']] = result\<close>\<close>

fun add_properties :: "dict list \<Rightarrow> sensors \<Rightarrow> error + sensors" where
  "add_properties [] sensors = Inr sensors"
| "add_properties (result # results) sensors =
     (case dict_get result ''id'' of
        Inl e \<Rightarrow> Inl e
      | Inr hw \<Rightarrow> add_properties results (AList.update hw result sensors))"

text \<open>The two assignments into \<^verbatim>\<open>sensors[result['id']]\<close> for one status reply.\<close>

definition set_sensor_field :: "dict \<Rightarrow> string \<Rightarrow> sensors \<Rightarrow> error + sensors" where
  "set_sensor_field result field sensors =
     (case dict_get result field of
        Inl e \<Rightarrow> Inl e
      | Inr v \<Rightarrow>
          (case dict_get result ''id'' of
             Inl e \<Rightarrow> Inl e
           | Inr hw \<Rightarrow>
               (case map_of sensors hw of
                  None \<Rightarrow> Inl KeyError
                | Some sensor \<Rightarrow> Inr (AList.update hw (AList.update field v sensor) sensors))))"

fun add_states :: "dict list \<Rightarrow> sensors \<Rightarrow> error + sensors" where
  "add_states [] sensors = Inr sensors"
| "add_states (result # results) sensors =
     (if result = [] then add_states results sensors
      else
        (case set_sensor_field result ''last_trigger_timestamp'' sensors of
           Inl e \<Rightarrow> Inl e
         | Inr sensors1 \<Rightarrow>
             (case set_sensor_field result ''last_trigger_type'' sensors1 of
                Inl e \<Rightarrow> Inl e
              | Inr sensors2 \<Rightarrow> add_states results sensors2)))"

definition probe_status_key :: "string \<Rightarrow> string \<Rightarrow> string \<Rightarrow> string" where
  "probe_status_key survey_id map_id hw =
     ''occupeye:surveys:'' @ survey_id @ '':maps:'' @ map_id @ '':sensors:'' @ hw @ '':status''"

text \<open>The part of the loop body under \<^verbatim>\<open>if return_states\<close>.\<close>

definition read_states ::
  "upstream \<Rightarrow> real \<Rightarrow> string \<Rightarrow> string \<Rightarrow> string list \<Rightarrow> sensors \<Rightarrow> api
    \<Rightarrow> (error + sensors) \<times> api" where
  "read_states up now survey_id map_id sensor_hw_ids sensors st =
     (case sensor_hw_ids of
        [] \<Rightarrow> (Inl IndexError, st)
      | first_hw # others \<Rightarrow>
          (case r_get now (r st) (probe_status_key survey_id map_id first_hw) of
             Inl e \<Rightarrow> (Inl e, st)
           | Inr probe \<Rightarrow>
               (case (if probe = None \<or> probe = Some []
                      then cache_all_survey_sensor_states up now survey_id st
                      else (Inr (), st)) of
                  (Inl e, st1) \<Rightarrow> (Inl e, st1)
                | (Inr u, st1) \<Rightarrow>
                    (case execute now
                            (map (\<lambda>sensor_id. HGETALL (sensor_status_key survey_id sensor_id))
                               sensor_hw_ids)
                            (r st1) of
                       (Inl e, db) \<Rightarrow> (Inl e, st1\<lparr>r := db\<rparr>)
                     | (Inr reps, db) \<Rightarrow>
                         (add_states (map reply_dict reps) sensors, st1\<lparr>r := db\<rparr>)))))"

text \<open>The body of the loop over the maps of the survey.\<close>

definition map_sensors_step ::
  "upstream \<Rightarrow> real \<Rightarrow> string \<Rightarrow> bool \<Rightarrow> string \<Rightarrow> api \<Rightarrow> (error + map_sensors) \<times> api" where
  "map_sensors_step up now survey_id return_states map_id st =
     (case r_llen now (r st) (map_sensors_key survey_id map_id) of
        Inl e \<Rightarrow> (Inl e, st)
      | Inr n \<Rightarrow>
          (case (if n = 0 then cache_sensors_for_map up now survey_id map_id st
                 else (Inr (), st)) of
             (Inl e, st1) \<Rightarrow> (Inl e, st1)
           | (Inr u, st1) \<Rightarrow>
               (case r_llen now (r st1) (map_sensors_key survey_id map_id) of
                  Inl e \<Rightarrow> (Inl e, st1)
                | Inr n1 \<Rightarrow>
               (case r_lrange now (r st1) (map_sensors_key survey_id map_id) 0 (int n1) of
                  Inl e \<Rightarrow> (Inl e, st1)
                | Inr sensor_hw_ids \<Rightarrow>
               (case execute now
                       (map (\<lambda>sensor_id.
                               HGETALL (sensor_properties_key survey_id map_id sensor_id))
                          sensor_hw_ids)
                       (r st1) of
                  (Inl e, db) \<Rightarrow> (Inl e, st1\<lparr>r := db\<rparr>)
                | (Inr reps, db) \<Rightarrow>
               (case add_properties (map reply_dict reps) [] of
                  Inl e \<Rightarrow> (Inl e, st1\<lparr>r := db\<rparr>)
                | Inr sensors \<Rightarrow>
               (case (if return_states
                      then read_states up now survey_id map_id sensor_hw_ids sensors
                             (st1\<lparr>r := db\<rparr>)
                      else (Inr sensors, st1\<lparr>r := db\<rparr>)) of
                  (Inl e, st2) \<Rightarrow> (Inl e, st2)
                | (Inr sensors', st2) \<Rightarrow>
               (case r_hgetall now (r st2) (survey_map_key survey_id map_id) of
                  Inl e \<Rightarrow> (Inl e, st2)
                | Inr md \<Rightarrow>
                    (Inr \<lparr>map_data = md, sensors_of = sensors'\<rparr>, st2)))))))))"

fun map_sensors_loop ::
  "upstream \<Rightarrow> real \<Rightarrow> string \<Rightarrow> bool \<Rightarrow> string list \<Rightarrow> api
    \<Rightarrow> (error + map_sensors list) \<times> api" where
  "map_sensors_loop up now survey_id return_states [] st = (Inr [], st)"
| "map_sensors_loop up now survey_id return_states (map_id # maps) st =
     (case map_sensors_step up now survey_id return_states map_id st of
        (Inl e, st1) \<Rightarrow> (Inl e, st1)
      | (Inr m, st1) \<Rightarrow>
          (case map_sensors_loop up now survey_id return_states maps st1 of
             (Inl e, st2) \<Rightarrow> (Inl e, st2)
           | (Inr ms, st2) \<Rightarrow> (Inr (m # ms), st2)))"

definition get_survey_sensors ::
  "upstream \<Rightarrow> real \<Rightarrow> string \<Rightarrow> bool \<Rightarrow> api \<Rightarrow> (error + map_sensors list) \<times> api" where
  "get_survey_sensors up now survey_id return_states st =
     (if \<not> isdigit survey_id then (Inl BadOccupEyeRequest, st)
      else
        (case r_llen now (r st) (survey_maps_key survey_id) of
           Inl e \<Rightarrow> (Inl e, st)
         | Inr n \<Rightarrow>
        (case (if n = 0 then cache_survey_data up now st else (Inr (), st)) of
           (Inl e, st1) \<Rightarrow> (Inl e, st1)
         | (Inr u, st1) \<Rightarrow>
        (case r_llen now (r st1) (survey_maps_key survey_id) of
           Inl e \<Rightarrow> (Inl e, st1)
         | Inr n1 \<Rightarrow>
             if n1 = 0 then (Inl BadOccupEyeRequest, st1)
             else
        (case r_llen now (r st1) (survey_maps_key survey_id) of
           Inl e \<Rightarrow> (Inl e, st1)
         | Inr n2 \<Rightarrow>
        (case r_lrange now (r st1) (survey_maps_key survey_id) 0 (int n2) of
           Inl e \<Rightarrow> (Inl e, st1)
         | Inr maps \<Rightarrow> map_sensors_loop up now survey_id return_states maps st1))))))"

section \<open>Example inputs\<close>

text \<open>An object in test mode over an empty store, and an upstream service with no surveys.\<close>

definition fresh :: api where
  "fresh = \<lparr>r = Map.empty, access_token = None, access_token_expiry = None, sent = []\<rparr>"

definition demo_upstream :: upstream where
  "demo_upstream =
     \<lparr>token_endpoint = Some (''tok'', 3600),
      surveys_endpoint = Some [],
      maps_endpoint = (\<lambda>s. Some []),
      survey_sensors_latest_endpoint = (\<lambda>s. Some []),
      map_endpoint = (\<lambda>m. Some []),
      images_endpoint = (\<lambda>i. None)\<rparr>"

text \<open>A store in which survey 42 has one cached map, 7, and nothing else.\<close>

definition one_map_cached :: api where
  "one_map_cached =
     fresh\<lparr>r := Map.empty(''occupeye:surveys:42:maps'' \<mapsto> (RList [''7''], None))\<rparr>"

text \<open>An upstream service that serves one image.\<close>

definition demo_images :: upstream where
  "demo_images =
     demo_upstream\<lparr>images_endpoint :=
       (\<lambda>i. Some \<lparr>content_type_header = Some ''image/png'', content = Some ''abc''\<rparr>)\<rparr>"

text \<open>An upstream service whose token endpoint hands out an empty token.\<close>

definition empty_token :: upstream where
  "empty_token = demo_upstream\<lparr>token_endpoint := Some ([], 3600)\<rparr>"

text \<open>The image id that consists of the character superscript two (code point 178).\<close>

definition superscript_two :: string where
  "superscript_two = [CHR 0xB2]"

text \<open>An upstream service that reports one sensor, 500, for every survey.\<close>

definition sensor_500 :: sensor_json where
  "sensor_500 =
     \<lparr>HardwareID = 500, SensorID = 1, LastTriggerType = ''Absent'', LastTriggerTime = ''t1''\<rparr>"

definition demo_sensors :: upstream where
  "demo_sensors = demo_upstream\<lparr>survey_sensors_latest_endpoint := (\<lambda>s. Some [sensor_500])\<rparr>"

text \<open>The same service, with that sensor placed on every map.\<close>

definition demo_floor :: upstream where
  "demo_floor =
     demo_sensors\<lparr>map_endpoint := (\<lambda>m. Some [\<lparr>ItemHardwareID = 500, X = 1, Y = 2\<rparr>])\<rparr>"

text \<open>An upstream service with two surveys, in descending order of id, each with one map.\<close>

definition survey_43 :: survey_json where
  "survey_43 =
     \<lparr>SurveyID = 43, Active = True, Name = ''Library'', StartTime = ''08:00'',
      EndTime = ''20:00''\<rparr>"

definition survey_42 :: survey_json where
  "survey_42 =
     \<lparr>SurveyID = 42, Active = False, Name = ''Archive'', StartTime = ''09:00'',
      EndTime = ''17:00''\<rparr>"

definition demo_surveys :: upstream where
  "demo_surveys =
     demo_upstream\<lparr>surveys_endpoint := Some [survey_43, survey_42],
       maps_endpoint := (\<lambda>s. Some [\<lparr>MapID = 7, MapName = ''Floor 1'', ImageID = 70\<rparr>])\<rparr>"

section \<open>Auxiliary notions for the proofs\<close>

text \<open>
  The kind of value the program keeps under a key, and the entry a pipeline leaves under one
  key, as a function of the entry that was there.
\<close>

datatype rkind = KString | KList | KHash

fun kind_of :: "rvalue \<Rightarrow> rkind" where
  "kind_of (RString s) = KString"
| "kind_of (RList xs) = KList"
| "kind_of (RHash h) = KHash"

fun cmd_kind :: "cmd \<Rightarrow> rkind option" where
  "cmd_kind (DEL k) = None"
| "cmd_kind (SET k v) = Some KString"
| "cmd_kind (HMSET k m) = Some KHash"
| "cmd_kind (RPUSH k v) = Some KList"
| "cmd_kind (LPUSH k v) = Some KList"
| "cmd_kind (EXPIRE k ttl) = None"
| "cmd_kind (HGETALL k) = Some KHash"

definition key_kind :: "string \<Rightarrow> rkind" where
  "key_kind k =
     (if prefix ''occupeye:image:'' k \<or> k = ''occupeye:access_token''
           \<or> k = ''occupeye:access_token_expiry'' then KString
      else if k = ''occupeye:surveys'' \<or> suffix '':maps'' k \<or> suffix '':sensors'' k then KList
      else KHash)"

definition typed :: "redis \<Rightarrow> bool" where
  "typed db = (\<forall>k v t. db k = Some (v, t) \<longrightarrow> kind_of v = key_kind k)"

definition fits :: "cmd \<Rightarrow> bool" where
  "fits c = (case cmd_kind c of None \<Rightarrow> True | Some kd \<Rightarrow> key_kind (key_of c) = kd)"

fun entry_after :: "real \<Rightarrow> string \<Rightarrow> cmd list \<Rightarrow> entry option \<Rightarrow> entry option" where
  "entry_after now k [] e = e"
| "entry_after now k (c # cs) e =
     entry_after now k cs (if key_of c = k then snd (apply_cmd now c (visible now e)) else e)"

text \<open>
  The credential of the object is usable: \<^verbatim>\<open>token_valid\<close> does not compare the time with
  \<^verbatim>\<open>None\<close>.
\<close>

definition credential_ok :: "api \<Rightarrow> bool" where
  "credential_ok st =
     (access_token st = None \<or> access_token st = Some [] \<or> access_token_expiry st \<noteq> None)"

definition maps_readable :: "real \<Rightarrow> redis \<Rightarrow> string \<Rightarrow> bool" where
  "maps_readable now db survey_id =
     (\<exists>n survey_map_ids survey_maps.
        r_llen now db (survey_maps_key survey_id) = Inr n
      \<and> r_lrange now db (survey_maps_key survey_id) 0 (int n) = Inr survey_map_ids
      \<and> read_maps now db survey_id survey_map_ids = Inr survey_maps)"

definition pushed :: "string list \<Rightarrow> entry option" where
  "pushed xs = (if xs = [] then None else Some (RList xs, None))"

definition map_fields :: "map_json \<Rightarrow> dict" where
  "map_fields m =
     [(''id'', str_int (MapID m)), (''name'', MapName m), (''image_id'', str_int (ImageID m))]"

definition survey_fields :: "survey_json \<Rightarrow> dict" where
  "survey_fields s =
     [(''id'', str_int (SurveyID s)), (''active'', str_bool (Active s)), (''name'', Name s),
      (''start_time'', StartTime s), (''end_time'', EndTime s)]"

definition surveys_pipeline :: "survey_json list \<Rightarrow> cmd list" where
  "surveys_pipeline ss =
     DEL ''occupeye:surveys'' # concat (map survey_cmds ss)
       @ [EXPIRE ''occupeye:surveys'' SURVEY_TTL]"

section \<open>Properties\<close>

subsection \<open>Token manager\<close>

text \<open>
  C9.  The expiry comparison is strict.  For an object that holds a credential (a token that
  is not empty) with expiry \<open>e\<close>, \<^verbatim>\<open>token_valid\<close> answers true exactly when the current time
  is at most \<open>e\<close>; in particular at the instant \<open>now = e\<close> the credential is still valid, and
  \<^verbatim>\<open>get_bearer_token\<close> returns it and leaves the object, and with it the list of requests
  sent, as it was.
\<close>

theorem token_valid_strict:
  assumes "access_token st = Some tok" and "tok \<noteq> []" and "access_token_expiry st = Some e"
  shows "token_valid now st = Inr (now \<le> real_of_int e)
       \<and> get_bearer_token up (real_of_int e) st = (Inr (''Bearer '' @ tok), st)"
  using assms by (auto simp: token_valid_def get_bearer_token_def bearer_def)

theorem token_valid_strict_witness:
  "token_valid 100 (fresh\<lparr>access_token := Some ''tok'', access_token_expiry := Some 100\<rparr>)
     = Inr True
   \<and> token_valid (100 + 1 / 2)
        (fresh\<lparr>access_token := Some ''tok'', access_token_expiry := Some 100\<rparr>)
     = Inr False
   \<and> get_bearer_token demo_upstream 100
        (fresh\<lparr>access_token := Some ''tok'', access_token_expiry := Some 100\<rparr>)
     = (Inr ''Bearer tok'',
        fresh\<lparr>access_token := Some ''tok'', access_token_expiry := Some 100\<rparr>)"
  using
    token_valid_strict
      [of "fresh\<lparr>access_token := Some ''tok'', access_token_expiry := Some 100\<rparr>"
          "''tok''" 100 100 demo_upstream]
    token_valid_strict
      [of "fresh\<lparr>access_token := Some ''tok'', access_token_expiry := Some 100\<rparr>"
          "''tok''" 100 "100 + 1 / 2" demo_upstream]
  by simp

lemma demo_exchange:
  "fst (get_bearer_token demo_upstream 1000 fresh) = Inr ''Bearer tok''
   \<and> access_token_expiry (snd (get_bearer_token demo_upstream 1000 fresh)) = Some 4600
   \<and> sent (snd (get_bearer_token demo_upstream 1000 fresh)) = [PostToken]"
  by (simp add: get_bearer_token_def token_valid_def bearer_def get_token_def Let_def
        fresh_def demo_upstream_def int_of_float_def)

text \<open>
  C3 does not hold after every successful return.  When the token endpoint hands out an
  empty token, \<^verbatim>\<open>get_bearer_token\<close> returns \<^verbatim>\<open>"Bearer "\<close> and stores the expiry 4600, but
  \<^verbatim>\<open>token_valid\<close> takes an empty token for no token: the next call, one second later and
  well before the expiry, exchanges the credential again.
\<close>

theorem get_bearer_token_empty_token_again:
  "fst (get_bearer_token empty_token 1000 fresh) = Inr ''Bearer ''
   \<and> access_token_expiry (snd (get_bearer_token empty_token 1000 fresh)) = Some 4600
   \<and> sent (snd (get_bearer_token empty_token 1000 fresh)) = [PostToken]
   \<and> fst (get_bearer_token empty_token 1001 (snd (get_bearer_token empty_token 1000 fresh)))
       = Inr ''Bearer ''
   \<and> sent (snd (get_bearer_token empty_token 1001
                    (snd (get_bearer_token empty_token 1000 fresh))))
       = [PostToken, PostToken]"
  by (simp add: get_bearer_token_def token_valid_def bearer_def get_token_def Let_def
        fresh_def empty_token_def demo_upstream_def int_of_float_def)

text \<open>
  C3, for a token that is not empty.  After \<^verbatim>\<open>get_bearer_token\<close> has returned a credential
  other than \<^verbatim>\<open>"Bearer "\<close>, the object holds an expiry \<open>e\<close>, and every later call at a time up
  to \<open>e\<close>, whatever the upstream service would answer, returns the same credential and
  changes nothing: no request is added to the list of requests sent.
\<close>

theorem get_bearer_token_idempotent:
  assumes "get_bearer_token up now st = (Inr b, st')" and "b \<noteq> ''Bearer ''"
  shows "\<exists>e. access_token_expiry st' = Some e
           \<and> (\<forall>up' now'. now' \<le> real_of_int e
                 \<longrightarrow> get_bearer_token up' now' st' = (Inr b, st'))"
  using assms
  by (auto simp: get_bearer_token_def token_valid_def bearer_def get_token_def Let_def
           split: option.splits if_splits sum.splits prod.splits bool.splits)

theorem get_bearer_token_idempotent_witness:
  "get_bearer_token demo_upstream 1000 fresh
     = (Inr ''Bearer tok'', snd (get_bearer_token demo_upstream 1000 fresh))
   \<and> ''Bearer tok'' \<noteq> ''Bearer ''
   \<and> (4600 :: real) \<le> real_of_int 4600
   \<and> get_bearer_token demo_upstream 4600 (snd (get_bearer_token demo_upstream 1000 fresh))
     = (Inr ''Bearer tok'', snd (get_bearer_token demo_upstream 1000 fresh))"
proof -
  let ?st = "snd (get_bearer_token demo_upstream 1000 fresh)"
  have h: "get_bearer_token demo_upstream 1000 fresh = (Inr ''Bearer tok'', ?st)"
    using demo_exchange by (simp add: prod_eq_iff)
  have ne: "''Bearer tok'' \<noteq> ''Bearer ''" by simp
  from get_bearer_token_idempotent [OF h ne] obtain e where
    e: "access_token_expiry ?st = Some e"
    and later: "\<forall>up' now'. now' \<le> real_of_int e
                  \<longrightarrow> get_bearer_token up' now' ?st = (Inr ''Bearer tok'', ?st)"
    by blast
  from e demo_exchange have "e = 4600" by simp
  with later have "get_bearer_token demo_upstream 4600 ?st = (Inr ''Bearer tok'', ?st)"
    by simp
  with h ne show ?thesis by simp
qed

subsection \<open>Images\<close>




subsection \<open>Basic facts about the store and the requests sent\<close>

lemma execute_Nil: "execute now [] db = (Inr [], db)"
  by (simp add: execute_def)

lemma isdigit_42: "isdigit ''42''"
  by (simp add: isdigit_def isdigit_char_def is_decimal_def)

lemma list_range_all: "list_range xs 0 (int (length xs)) = xs"
  by (cases xs) (auto simp: list_range_def Let_def)

lemma list_range_all': "list_range xs 0 (int (length xs) - 1) = xs"
  by (cases xs) (auto simp: list_range_def Let_def)

lemma r_llen_list: "lookup now db k = Some (RList xs) \<Longrightarrow> r_llen now db k = Inr (length xs)"
  by (simp add: r_llen_def)

lemma r_lrange_all:
  "lookup now db k = Some (RList xs) \<Longrightarrow> r_lrange now db k 0 (int (length xs)) = Inr xs"
  by (simp add: r_lrange_def list_range_all)

lemma r_lrange_all':
  "lookup now db k = Some (RList xs) \<Longrightarrow> r_lrange now db k 0 (int (length xs) - 1) = Inr xs"
  by (simp add: r_lrange_def list_range_all')

lemma get_token_sent:
  "sent (snd (get_token up now st)) = sent st @ [PostToken]"
  by (simp add: get_token_def Let_def split: option.splits prod.splits)

lemma get_bearer_token_surveys:
  "count_list (sent (snd (get_bearer_token up now st))) GetSurveys
     = count_list (sent st) GetSurveys"
proof -
  have "count_list (sent (snd (get_token up now st))) GetSurveys
          = count_list (sent st) GetSurveys"
    by (simp add: get_token_sent)
  then show ?thesis
    by (auto simp: get_bearer_token_def bearer_def
             split: sum.splits bool.splits prod.splits option.splits)
qed

lemma cache_maps_for_survey_surveys:
  "count_list (sent (snd (cache_maps_for_survey up now sid st))) GetSurveys
     = count_list (sent st) GetSurveys"
  using get_bearer_token_surveys [of up now st]
  by (auto simp: cache_maps_for_survey_def Let_def split: sum.splits prod.splits option.splits)

lemma cache_surveys_loop_surveys:
  "count_list (sent (snd (cache_surveys_loop up now ss p st))) GetSurveys
     = count_list (sent st) GetSurveys"
proof (induction ss arbitrary: p st)
  case Nil
  then show ?case by simp
next
  case (Cons s ss)
  show ?case
    using cache_maps_for_survey_surveys [of up now "SurveyID s" st] Cons.IH
    by (auto split: sum.splits prod.splits)
qed

lemma cache_survey_data_surveys:
  assumes "cache_survey_data up now st = (Inr u, st1)"
  shows "count_list (sent st1) GetSurveys = count_list (sent st) GetSurveys + 1"
proof -
  obtain a st' where g: "get_bearer_token up now st = (a, st')"
    by (cases "get_bearer_token up now st")
  have c: "count_list (sent st') GetSurveys = count_list (sent st) GetSurveys"
    using get_bearer_token_surveys [of up now st] g by simp
  from assms g obtain ss where ss: "surveys_endpoint up = Some ss"
    by (auto simp: cache_survey_data_def Let_def split: sum.splits option.splits)
  let ?st2 = "st'\<lparr>sent := sent st' @ [GetSurveys]\<rparr>"
  have l: "count_list
             (sent (snd (cache_surveys_loop up now ss [DEL ''occupeye:surveys''] ?st2)))
             GetSurveys
           = count_list (sent ?st2) GetSurveys"
    by (rule cache_surveys_loop_surveys)
  from assms g ss l c show ?thesis
    by (auto simp: cache_survey_data_def Let_def split: sum.splits prod.splits)
qed

subsection \<open>\<^verbatim>\<open>get_survey_sensors\<close>: unknown surveys and empty maps\<close>

text \<open>
  C7.  For a survey id made of digits whose list of maps is empty, \<^verbatim>\<open>get_survey_sensors\<close>
  runs the survey refresh once (one request for the list of surveys is sent); if the list
  of maps is still empty in the store the refresh leaves, the call raises
  \<^verbatim>\<open>BadOccupEyeRequest\<close>.
\<close>

theorem get_survey_sensors_unknown_survey:
  assumes "isdigit survey_id"
    and "r_llen now (r st) (survey_maps_key survey_id) = Inr 0"
    and "cache_survey_data up now st = (Inr (), st1)"
    and "r_llen now (r st1) (survey_maps_key survey_id) = Inr 0"
  shows "get_survey_sensors up now survey_id return_states st = (Inl BadOccupEyeRequest, st1)
       \<and> count_list (sent st1) GetSurveys = count_list (sent st) GetSurveys + 1"
  using assms cache_survey_data_surveys [OF assms(3)]
  by (simp add: get_survey_sensors_def)

lemma demo_refresh:
  "fst (cache_survey_data demo_upstream 1000 fresh) = Inr ()
   \<and> r (snd (cache_survey_data demo_upstream 1000 fresh)) (survey_maps_key ''42'') = None
   \<and> sent (snd (cache_survey_data demo_upstream 1000 fresh)) = [PostToken, GetSurveys]"
  by (simp add: cache_survey_data_def get_bearer_token_def token_valid_def bearer_def
        get_token_def Let_def fresh_def demo_upstream_def r_set_def exec_cmd_def
        execute_def visible_def survey_maps_key_def)

theorem get_survey_sensors_unknown_survey_witness:
  "isdigit ''42''
   \<and> r_llen 1000 (r fresh) (survey_maps_key ''42'') = Inr 0
   \<and> get_survey_sensors demo_upstream 1000 ''42'' True fresh
       = (Inl BadOccupEyeRequest, snd (cache_survey_data demo_upstream 1000 fresh))
   \<and> sent (snd (cache_survey_data demo_upstream 1000 fresh)) = [PostToken, GetSurveys]"
proof -
  let ?st1 = "snd (cache_survey_data demo_upstream 1000 fresh)"
  have a: "r_llen 1000 (r fresh) (survey_maps_key ''42'') = Inr 0"
    by (simp add: r_llen_def lookup_def visible_def fresh_def)
  have b: "cache_survey_data demo_upstream 1000 fresh = (Inr (), ?st1)"
    using demo_refresh by (simp add: prod_eq_iff)
  have c: "r_llen 1000 (r ?st1) (survey_maps_key ''42'') = Inr 0"
    using demo_refresh by (simp add: r_llen_def lookup_def visible_def)
  from get_survey_sensors_unknown_survey [OF isdigit_42 a b c, of True] a isdigit_42
    demo_refresh
  show ?thesis by simp
qed

lemma map_sensors_loop_append:
  "map_sensors_loop up now sid rs (pre @ m # rest) st =
     (case map_sensors_loop up now sid rs pre st of
        (Inl e, st1) \<Rightarrow> (Inl e, st1)
      | (Inr ms, st1) \<Rightarrow>
          (case map_sensors_step up now sid rs m st1 of
             (Inl e, st2) \<Rightarrow> (Inl e, st2)
           | (Inr x, st2) \<Rightarrow>
               (case map_sensors_loop up now sid rs rest st2 of
                  (Inl e, st3) \<Rightarrow> (Inl e, st3)
                | (Inr xs, st3) \<Rightarrow> (Inr (ms @ x # xs), st3))))"
  by (induction pre arbitrary: st) (auto split: sum.splits prod.splits)

lemma map_sensors_step_empty:
  assumes "r_llen now (r st) (map_sensors_key sid m) = Inr 0"
    and "cache_sensors_for_map up now sid m st = (Inr (), st1)"
    and "r_llen now (r st1) (map_sensors_key sid m) = Inr 0"
  shows "map_sensors_step up now sid True m st = (Inl IndexError, st1)"
proof -
  have "r_lrange now (r st1) (map_sensors_key sid m) 0 0 = Inr []"
    using assms(3)
    by (auto simp: r_llen_def r_lrange_def list_range_def split: option.splits rvalue.splits)
  then show ?thesis using assms
    by (simp add: map_sensors_step_def execute_Nil read_states_def)
qed

text \<open>
  C10.  With states requested, a map whose list of sensors is empty and is still empty after
  the position refresh makes \<^verbatim>\<open>get_survey_sensors\<close> fail with \<^verbatim>\<open>IndexError\<close> (from
  \<^verbatim>\<open>sensor_hw_ids[0]\<close>), not with \<^verbatim>\<open>BadOccupEyeRequest\<close>.  The map may be anywhere in the
  cached list of maps of the survey, provided the maps before it were served.
\<close>

theorem get_survey_sensors_empty_map_index_error:
  assumes "isdigit survey_id"
    and "lookup now (r st) (survey_maps_key survey_id) = Some (RList (pre @ map_id # rest))"
    and "map_sensors_loop up now survey_id True pre st = (Inr ms, st0)"
    and "r_llen now (r st0) (map_sensors_key survey_id map_id) = Inr 0"
    and "cache_sensors_for_map up now survey_id map_id st0 = (Inr (), st1)"
    and "r_llen now (r st1) (map_sensors_key survey_id map_id) = Inr 0"
  shows "get_survey_sensors up now survey_id True st = (Inl IndexError, st1)"
proof -
  let ?maps = "pre @ map_id # rest"
  have "map_sensors_step up now survey_id True map_id st0 = (Inl IndexError, st1)"
    using assms(4-6) by (rule map_sensors_step_empty)
  then have loop: "map_sensors_loop up now survey_id True ?maps st = (Inl IndexError, st1)"
    using assms(3) by (simp add: map_sensors_loop_append)
  have len: "r_llen now (r st) (survey_maps_key survey_id) = Inr (length ?maps)"
    using assms(2) by (rule r_llen_list)
  have rng: "r_lrange now (r st) (survey_maps_key survey_id) 0 (int (length ?maps)) = Inr ?maps"
    using assms(2) by (rule r_lrange_all)
  have pos: "length ?maps \<noteq> 0" by simp
  show ?thesis
    unfolding get_survey_sensors_def using assms(1) pos
    by (simp only: len rng loop if_False if_True not_True_eq_False sum.case prod.case simp_thms)
qed

lemma demo_positions:
  "fst (cache_sensors_for_map demo_upstream 1000 ''42'' ''7'' one_map_cached) = Inr ()
   \<and> r (snd (cache_sensors_for_map demo_upstream 1000 ''42'' ''7'' one_map_cached))
        (map_sensors_key ''42'' ''7'') = None
   \<and> sent (snd (cache_sensors_for_map demo_upstream 1000 ''42'' ''7'' one_map_cached))
       = [PostToken, GetMap ''7'']"
  by (simp add: cache_sensors_for_map_def get_bearer_token_def token_valid_def bearer_def
        get_token_def Let_def fresh_def one_map_cached_def demo_upstream_def r_set_def
        exec_cmd_def execute_def visible_def map_sensors_key_def map_sensors_pipeline_def)

theorem get_survey_sensors_empty_map_index_error_witness:
  "isdigit ''42''
   \<and> lookup 1000 (r one_map_cached) (survey_maps_key ''42'') = Some (RList ([] @ ''7'' # []))
   \<and> r_llen 1000 (r one_map_cached) (map_sensors_key ''42'' ''7'') = Inr 0
   \<and> get_survey_sensors demo_upstream 1000 ''42'' True one_map_cached
       = (Inl IndexError,
          snd (cache_sensors_for_map demo_upstream 1000 ''42'' ''7'' one_map_cached))
   \<and> Inl IndexError \<noteq> (Inl BadOccupEyeRequest :: error + map_sensors list)"
proof -
  let ?st1 = "snd (cache_sensors_for_map demo_upstream 1000 ''42'' ''7'' one_map_cached)"
  have a: "lookup 1000 (r one_map_cached) (survey_maps_key ''42'')
             = Some (RList ([] @ ''7'' # []))"
    by (simp add: lookup_def visible_def one_map_cached_def survey_maps_key_def)
  have b: "map_sensors_loop demo_upstream 1000 ''42'' True [] one_map_cached
             = (Inr [], one_map_cached)"
    by simp
  have c: "r_llen 1000 (r one_map_cached) (map_sensors_key ''42'' ''7'') = Inr 0"
    by (simp add: r_llen_def lookup_def visible_def one_map_cached_def map_sensors_key_def)
  have d: "cache_sensors_for_map demo_upstream 1000 ''42'' ''7'' one_map_cached
             = (Inr (), ?st1)"
    using demo_positions by (simp add: prod_eq_iff)
  have e: "r_llen 1000 (r ?st1) (map_sensors_key ''42'' ''7'') = Inr 0"
    using demo_positions by (simp add: r_llen_def lookup_def visible_def)
  from get_survey_sensors_empty_map_index_error [OF isdigit_42 a b c d e] a c isdigit_42
  show ?thesis by simp
qed

subsection \<open>Decimal numerals\<close>

lemma of_char_digit_char: "d < 10 \<Longrightarrow> (of_char (digit_char d) :: nat) = 48 + d"
  by (simp add: digit_char_def)

lemma is_decimal_digit_char: "d < 10 \<Longrightarrow> is_decimal (digit_char d)"
  by (simp add: is_decimal_def of_char_digit_char)

lemma str_nat_decimal: "list_all is_decimal (str_nat n)"
proof (induction n rule: str_nat.induct)
  case (1 n)
  show ?case
  proof (cases "n < 10")
    case True
    then show ?thesis by (subst str_nat.simps) (simp add: is_decimal_digit_char)
  next
    case False
    with 1 show ?thesis by (subst str_nat.simps) (simp add: is_decimal_digit_char)
  qed
qed

lemma str_nat_not_Nil: "str_nat n \<noteq> []"
  by (subst str_nat.simps) simp

lemma digits_value_snoc:
  "digits_value (s @ [c]) = 10 * digits_value s + ((of_char c :: nat) - 48)"
  by (simp add: digits_value_def)

lemma digits_value_str_nat: "digits_value (str_nat n) = n"
proof (induction n rule: str_nat.induct)
  case (1 n)
  show ?case
  proof (cases "n < 10")
    case True
    then show ?thesis
      by (subst str_nat.simps) (simp add: digits_value_def of_char_digit_char)
  next
    case False
    with 1 have "digits_value (str_nat (n div 10)) = n div 10" by simp
    with False show ?thesis
      by (subst str_nat.simps) (simp add: digits_value_snoc of_char_digit_char)
  qed
qed

lemma is_decimal_not_sign: "is_decimal c \<Longrightarrow> c \<noteq> CHR ''-'' \<and> c \<noteq> CHR ''+'' \<and> c \<noteq> CHR '':''"
  by (auto simp: is_decimal_def)

lemma is_decimal_plain: "is_decimal c \<Longrightarrow> c \<noteq> CHR ''_'' \<and> \<not> int_space c"
  by (auto simp: is_decimal_def int_space_def)

lemma digit_groups_decimal: "s \<noteq> [] \<Longrightarrow> list_all is_decimal s \<Longrightarrow> digit_groups s"
  by (induction s rule: digit_groups.induct) (auto dest: is_decimal_plain)

lemma filter_decimal: "list_all is_decimal s \<Longrightarrow> filter (\<lambda>c. c \<noteq> CHR ''_'') s = s"
  by (induction s) (auto dest: is_decimal_plain)

lemma digits_int_str_nat: "digits_int (str_nat n) = Inr (int n)"
  by (simp add: digits_int_def digit_groups_decimal filter_decimal str_nat_decimal
        str_nat_not_Nil digits_value_str_nat)

lemma signed_int_str_int: "signed_int (str_int i) = Inr i"
proof (cases "i < 0")
  case True
  then show ?thesis by (simp add: str_int_def digits_int_str_nat)
next
  case False
  obtain c cs where s: "str_nat (nat i) = c # cs"
    using str_nat_not_Nil [of "nat i"] by (cases "str_nat (nat i)") auto
  have "is_decimal c" using str_nat_decimal [of "nat i"] s by simp
  then have "c \<noteq> CHR ''-''" "c \<noteq> CHR ''+''" using is_decimal_not_sign by auto
  moreover have "digits_int (c # cs) = Inr (int (nat i))"
    using digits_int_str_nat [of "nat i"] s by simp
  ultimately show ?thesis using False s by (simp add: str_int_def)
qed

lemma strip_space_id:
  assumes "s \<noteq> []" and "\<not> int_space (hd s)" and "\<not> int_space (last s)"
  shows "strip_space s = s"
proof -
  have a: "dropWhile int_space s = s" using assms(1,2) by (cases s) auto
  have b: "dropWhile int_space (rev s) = rev s"
    using assms(1,3) by (induction s rule: rev_induct) auto
  show ?thesis by (simp add: strip_space_def a b)
qed

lemma str_nat_ends:
  "\<not> int_space (hd (str_nat n))" "\<not> int_space (last (str_nat n))"
  using str_nat_decimal [of n] str_nat_not_Nil [of n] is_decimal_plain
  by (auto simp: list_all_iff)

lemma strip_space_str_int: "strip_space (str_int i) = str_int i"
proof (rule strip_space_id)
  show "str_int i \<noteq> []" by (simp add: str_int_def str_nat_not_Nil)
  show "\<not> int_space (hd (str_int i))"
    using str_nat_ends(1) [of "nat i"] by (simp add: str_int_def int_space_def)
  show "\<not> int_space (last (str_int i))"
    using str_nat_ends(2) by (simp add: str_int_def str_nat_not_Nil)
qed

lemma py_int_str_int: "py_int (str_int i) = Inr i"
  by (simp add: py_int_def strip_space_str_int signed_int_str_int)

lemma str_int_inj: "str_int i = str_int j \<Longrightarrow> i = j"
  by (metis py_int_str_int sum.inject(2))

lemma str_int_eq_iff [simp]: "str_int i = str_int j \<longleftrightarrow> i = j"
  using str_int_inj by auto

lemma colon_free_str_int: "CHR '':'' \<notin> set (str_int i)"
proof -
  have "CHR '':'' \<notin> set (str_nat n)" for n
    using str_nat_decimal [of n] is_decimal_not_sign by (auto simp: list_all_iff)
  then show ?thesis by (simp add: str_int_def)
qed

lemma str_int_not_Nil: "str_int i \<noteq> []"
  by (simp add: str_int_def str_nat_not_Nil)

lemma last_str_int_decimal: "is_decimal (last (str_int i))"
proof -
  have "is_decimal (last (str_nat n))" for n
    using str_nat_decimal [of n] str_nat_not_Nil [of n] by (simp add: list_all_iff)
  then show ?thesis by (simp add: str_int_def str_nat_not_Nil)
qed

lemma str2bool_True: "str2bool ''True''"
  by code_simp

lemma str2bool_False: "\<not> str2bool ''False''"
  by code_simp

lemma str2bool_str_bool: "str2bool (str_bool b) = b"
  by (cases b) (simp_all add: str_bool_def str2bool_True str2bool_False)

subsection \<open>Keys\<close>

lemma colon_split:
  assumes "CHR '':'' \<notin> set a" and "CHR '':'' \<notin> set b"
    and "a @ CHR '':'' # x = b @ CHR '':'' # y"
  shows "a = b \<and> x = y"
  using assms
proof (induction a arbitrary: b)
  case Nil
  then show ?case by (cases b) auto
next
  case (Cons c a)
  then show ?case by (cases b) auto
qed

subsection \<open>Pipelines: kinds of values and the effect on one key\<close>

lemma visible_Some: "visible now e = Some x \<Longrightarrow> e = Some x"
  by (auto simp: visible_def split: option.splits prod.splits if_splits)

lemma visible_idem [simp]: "visible now (visible now e) = visible now e"
  by (auto simp: visible_def split: option.splits prod.splits if_splits)

lemma apply_cmd_typed:
  assumes "\<forall>v t. e = Some (v, t) \<longrightarrow> kind_of v = kd"
    and "cmd_kind c = None \<or> cmd_kind c = Some kd"
  shows "fst (apply_cmd now c (visible now e)) \<noteq> RWrongType
       \<and> (\<forall>v t. snd (apply_cmd now c (visible now e)) = Some (v, t) \<longrightarrow> kind_of v = kd)"
proof (cases "visible now e")
  case None
  then show ?thesis using assms by (cases c) auto
next
  case (Some x)
  then have e: "e = Some x" by (rule visible_Some)
  obtain v t where x: "x = (v, t)" by (cases x)
  with e assms(1) have k: "kind_of v = kd" by simp
  show ?thesis using assms(2) Some x k
    by (cases c; cases v) auto
qed

lemma fst_exec_cmd: "fst (exec_cmd now c db) = fst (apply_cmd now c (visible now (db (key_of c))))"
  by (simp add: exec_cmd_def case_prod_beta)

lemma snd_exec_cmd:
  "snd (exec_cmd now c db) = db(key_of c := snd (apply_cmd now c (visible now (db (key_of c)))))"
  by (simp add: exec_cmd_def case_prod_beta)

lemma fst_run_cmds_Cons:
  "fst (run_cmds now (c # cs) db)
     = fst (exec_cmd now c db) # fst (run_cmds now cs (snd (exec_cmd now c db)))"
  by (simp add: case_prod_beta)

lemma snd_run_cmds_Cons:
  "snd (run_cmds now (c # cs) db) = snd (run_cmds now cs (snd (exec_cmd now c db)))"
  by (simp add: case_prod_beta)

lemma exec_cmd_typed:
  assumes "typed db" and "fits c"
  shows "fst (exec_cmd now c db) \<noteq> RWrongType \<and> typed (snd (exec_cmd now c db))"
proof -
  let ?k = "key_of c"
  have a: "\<forall>v t. db ?k = Some (v, t) \<longrightarrow> kind_of v = key_kind ?k"
    using assms(1) by (simp add: typed_def)
  have b: "cmd_kind c = None \<or> cmd_kind c = Some (key_kind ?k)"
    using assms(2) by (auto simp: fits_def split: option.splits)
  from apply_cmd_typed [OF a b, of now] assms(1) show ?thesis
    by (auto simp: fst_exec_cmd snd_exec_cmd typed_def)
qed

lemma run_cmds_typed:
  assumes "typed db" and "list_all fits cs"
  shows "RWrongType \<notin> set (fst (run_cmds now cs db)) \<and> typed (snd (run_cmds now cs db))"
  using assms
proof (induction cs arbitrary: db)
  case Nil
  then show ?case by simp
next
  case (Cons c cs)
  from Cons.prems have t: "typed (snd (exec_cmd now c db))"
    and w: "fst (exec_cmd now c db) \<noteq> RWrongType"
    using exec_cmd_typed [of db c now] by auto
  from Cons.prems have "list_all fits cs" by simp
  from Cons.IH [OF t this] w show ?case
    by (simp only: fst_run_cmds_Cons snd_run_cmds_Cons) auto
qed

lemma execute_typed:
  assumes "typed db" and "list_all fits cs"
  shows "execute now cs db = (Inr (fst (run_cmds now cs db)), snd (run_cmds now cs db))
       \<and> typed (snd (run_cmds now cs db))"
  using run_cmds_typed [OF assms, of now]
  by (simp add: execute_def case_prod_beta)

lemma run_cmds_entry: "snd (run_cmds now cs db) k = entry_after now k cs (db k)"
proof (induction cs arbitrary: db)
  case Nil
  then show ?case by simp
next
  case (Cons c cs)
  show ?case
    by (simp only: snd_run_cmds_Cons Cons.IH) (simp add: snd_exec_cmd)
qed

lemma entry_after_append:
  "entry_after now k (a @ b) e = entry_after now k b (entry_after now k a e)"
  by (induction a arbitrary: e) simp_all

lemma entry_after_other: "k \<notin> key_of ` set cs \<Longrightarrow> entry_after now k cs e = e"
  by (induction cs arbitrary: e) auto

lemma entry_after_concat_other:
  "(\<And>x. x \<in> set xs \<Longrightarrow> k \<notin> key_of ` set (f x)) \<Longrightarrow> entry_after now k (concat (map f xs)) e = e"
  by (rule entry_after_other) auto

lemma length_run_cmds: "length (fst (run_cmds now cs db)) = length cs"
  by (induction cs arbitrary: db) (simp_all add: case_prod_beta)

subsection \<open>Images: the two entries expire together\<close>

lemma image_keys_differ: "image_base64_key i \<noteq> image_content_type_key i"
  by (simp add: image_base64_key_def image_content_type_key_def)

lemma image_pipeline_entries:
  "entry_after now (image_base64_key i) (image_pipeline i b c) e
     = Some (RString b, Some (now + real IMAGE_TTL))"
  "entry_after now (image_content_type_key i) (image_pipeline i b c) e
     = Some (RString c, Some (now + real IMAGE_TTL))"
  using image_keys_differ [of i] image_keys_differ [of i, symmetric]
  by (simp_all add: image_pipeline_def visible_def)

lemma image_pipeline_replies:
  "RWrongType \<notin> set (fst (run_cmds now (image_pipeline i b c) db))"
  by (simp add: image_pipeline_def fst_exec_cmd snd_exec_cmd case_prod_beta visible_def
           split: option.splits)

lemma cache_image_result:
  assumes "cache_image up now image_id st = (Inr (), st')"
  shows "\<exists>request raw c.
           images_endpoint up image_id = Some request
         \<and> content request = Some raw
         \<and> content_type_header request = Some c
         \<and> r st' (image_base64_key image_id)
             = Some (RString (b64encode raw), Some (now + real IMAGE_TTL))
         \<and> r st' (image_content_type_key image_id)
             = Some (RString c, Some (now + real IMAGE_TTL))"
  using assms
  by (auto simp: cache_image_def Let_def execute_def case_prod_beta run_cmds_entry
                 image_pipeline_entries
           split: sum.splits prod.splits option.splits if_splits)

lemma read_image_at:
  assumes "r st (image_base64_key i) = Some (RString b, Some e)"
    and "r st (image_content_type_key i) = Some (RString c, Some e)"
  shows "read_image t1 t2 i st
           = (Inr (if t1 < e then Some b else None, if t2 < e then Some c else None), st)"
  using assms by (simp add: read_image_def r_get_def lookup_def visible_def)

lemma isdigit_7: "isdigit ''7''"
  by (simp add: isdigit_def isdigit_char_def is_decimal_def)

lemma demo_image:
  "fst (cache_image demo_images 1000 ''7'' fresh) = Inr ()"
  by (simp add: cache_image_def get_bearer_token_def token_valid_def bearer_def
        get_token_def Let_def fresh_def demo_images_def demo_upstream_def
        execute_def image_pipeline_replies case_prod_beta del: b64encode.simps)

text \<open>
  C8 does not hold for the read path.  \<^verbatim>\<open>get_image\<close> reads the two entries with two
  separate \<^verbatim>\<open>GET\<close> commands.  The image 7 is cached at time 1000, so both entries expire at
  \<open>1000 + IMAGE_TTL\<close>; a call whose first \<^verbatim>\<open>GET\<close> is served one second before that time and
  whose second \<^verbatim>\<open>GET\<close> is served at that time returns the payload without the content type.
\<close>

theorem get_image_torn_read:
  "fst (get_image demo_upstream 2000 2000 (1000 + real IMAGE_TTL - 1) (1000 + real IMAGE_TTL)
          ''7'' (snd (cache_image demo_images 1000 ''7'' fresh)))
     = Inr (Some (b64encode ''abc''), None)"
proof -
  let ?st' = "snd (cache_image demo_images 1000 ''7'' fresh)"
  have h: "cache_image demo_images 1000 ''7'' fresh = (Inr (), ?st')"
    using demo_image by (simp add: prod_eq_iff)
  from cache_image_result [OF h] have
    b: "r ?st' (image_base64_key ''7'')
          = Some (RString (b64encode ''abc''), Some (1000 + real IMAGE_TTL))"
    and c: "r ?st' (image_content_type_key ''7'')
          = Some (RString ''image/png'', Some (1000 + real IMAGE_TTL))"
    by (auto simp: demo_images_def)
  have ex: "r_exists 2000 (r ?st') (image_base64_key ''7'')"
    using b by (simp add: r_exists_def lookup_def visible_def IMAGE_TTL_def)
  show ?thesis
    using isdigit_7 ex read_image_at [OF b c] by (simp add: get_image_def)
qed

text \<open>
  C8, for the entries and for reads that end before the expiry.  When the image populator
  succeeds at time \<open>now\<close>, the payload and the content type are two string entries written
  by one pipeline with the same expiry time, \<open>now + IMAGE_TTL\<close>, so at every single instant
  one of them exists exactly when the other does.  A \<^verbatim>\<open>get_image\<close> that finds the payload
  (its \<^verbatim>\<open>EXISTS\<close> is served before the expiry), and equally the \<^verbatim>\<open>get_image\<close> that called
  this populator, returns the payload if its first \<^verbatim>\<open>GET\<close> is served before the expiry and
  the content type if its second \<^verbatim>\<open>GET\<close> is: both together when both reads are served
  before the expiry, and then without changing the object.
\<close>

theorem image_entries_expire_together:
  assumes "cache_image up now image_id st = (Inr (), st')"
  shows "\<exists>request raw c.
           images_endpoint up image_id = Some request
         \<and> content request = Some raw
         \<and> content_type_header request = Some c
         \<and> r st' (image_base64_key image_id)
             = Some (RString (b64encode raw), Some (now + real IMAGE_TTL))
         \<and> r st' (image_content_type_key image_id)
             = Some (RString c, Some (now + real IMAGE_TTL))
         \<and> (\<forall>t. r_exists t (r st') (image_base64_key image_id)
                 = r_exists t (r st') (image_content_type_key image_id))
         \<and> (\<forall>up' t0 tc t1 t2. isdigit image_id \<longrightarrow> t0 < now + real IMAGE_TTL
                 \<longrightarrow> get_image up' t0 tc t1 t2 image_id st'
                     = (Inr (if t1 < now + real IMAGE_TTL then Some (b64encode raw) else None,
                             if t2 < now + real IMAGE_TTL then Some c else None), st'))
         \<and> (\<forall>t0 t1 t2. isdigit image_id
                 \<longrightarrow> \<not> r_exists t0 (r st) (image_base64_key image_id)
                 \<longrightarrow> get_image up t0 now t1 t2 image_id st
                     = (Inr (if t1 < now + real IMAGE_TTL then Some (b64encode raw) else None,
                             if t2 < now + real IMAGE_TTL then Some c else None), st'))"
proof -
  from cache_image_result [OF assms] obtain request raw c where
    up: "images_endpoint up image_id = Some request" "content request = Some raw"
        "content_type_header request = Some c"
    and b: "r st' (image_base64_key image_id)
             = Some (RString (b64encode raw), Some (now + real IMAGE_TTL))"
    and ct: "r st' (image_content_type_key image_id)
             = Some (RString c, Some (now + real IMAGE_TTL))"
    by blast
  have ex: "r_exists t (r st') (image_base64_key image_id)
          = r_exists t (r st') (image_content_type_key image_id)" for t
    using b ct by (simp add: r_exists_def lookup_def visible_def)
  have hit: "get_image up' t0 tc t1 t2 image_id st'
               = (Inr (if t1 < now + real IMAGE_TTL then Some (b64encode raw) else None,
                       if t2 < now + real IMAGE_TTL then Some c else None), st')"
    if "isdigit image_id" "t0 < now + real IMAGE_TTL" for up' t0 tc t1 t2
  proof -
    from b that(2) have "r_exists t0 (r st') (image_base64_key image_id)"
      by (simp add: r_exists_def lookup_def visible_def)
    with that(1) show ?thesis by (simp add: get_image_def read_image_at [OF b ct])
  qed
  have miss: "get_image up t0 now t1 t2 image_id st
               = (Inr (if t1 < now + real IMAGE_TTL then Some (b64encode raw) else None,
                       if t2 < now + real IMAGE_TTL then Some c else None), st')"
    if "isdigit image_id" "\<not> r_exists t0 (r st) (image_base64_key image_id)" for t0 t1 t2
    using that assms by (simp add: get_image_def read_image_at [OF b ct])
  from up b ct ex hit miss show ?thesis by blast
qed

theorem image_entries_expire_together_witness:
  "cache_image demo_images 1000 ''7'' fresh
     = (Inr (), snd (cache_image demo_images 1000 ''7'' fresh))
   \<and> isdigit ''7'' \<and> (2000 :: real) < 1000 + real IMAGE_TTL
   \<and> get_image demo_upstream 2000 2001 2002 2003 ''7''
         (snd (cache_image demo_images 1000 ''7'' fresh))
       = (Inr (Some (b64encode ''abc''), Some ''image/png''),
          snd (cache_image demo_images 1000 ''7'' fresh))
   \<and> \<not> r_exists 999 (r fresh) (image_base64_key ''7'')
   \<and> get_image demo_images 999 1000 1001 1002 ''7'' fresh
       = (Inr (Some (b64encode ''abc''), Some ''image/png''),
          snd (cache_image demo_images 1000 ''7'' fresh))"
proof -
  let ?st' = "snd (cache_image demo_images 1000 ''7'' fresh)"
  have h: "cache_image demo_images 1000 ''7'' fresh = (Inr (), ?st')"
    using demo_image by (simp add: prod_eq_iff)
  have t: "(2000 :: real) < 1000 + real IMAGE_TTL" "(2002 :: real) < 1000 + real IMAGE_TTL"
    "(2003 :: real) < 1000 + real IMAGE_TTL" "(1001 :: real) < 1000 + real IMAGE_TTL"
    "(1002 :: real) < 1000 + real IMAGE_TTL"
    by (simp_all add: IMAGE_TTL_def)
  have m: "\<not> r_exists 999 (r fresh) (image_base64_key ''7'')"
    by (simp add: r_exists_def lookup_def visible_def fresh_def)
  from image_entries_expire_together [OF h] obtain request raw c where
    "images_endpoint demo_images ''7'' = Some request" "content request = Some raw"
    "content_type_header request = Some c"
    and hit: "\<forall>up' t0 tc t1 t2. isdigit ''7'' \<longrightarrow> t0 < 1000 + real IMAGE_TTL
                 \<longrightarrow> get_image up' t0 tc t1 t2 ''7'' ?st'
                     = (Inr (if t1 < 1000 + real IMAGE_TTL then Some (b64encode raw) else None,
                             if t2 < 1000 + real IMAGE_TTL then Some c else None), ?st')"
    and miss: "\<forall>t0 t1 t2. isdigit ''7''
                 \<longrightarrow> \<not> r_exists t0 (r fresh) (image_base64_key ''7'')
                 \<longrightarrow> get_image demo_images t0 1000 t1 t2 ''7'' fresh
                     = (Inr (if t1 < 1000 + real IMAGE_TTL then Some (b64encode raw) else None,
                             if t2 < 1000 + real IMAGE_TTL then Some c else None), ?st')"
    by blast
  then have rc: "raw = ''abc''" "c = ''image/png''"
    by (auto simp: demo_images_def)
  have a: "get_image demo_upstream 2000 2001 2002 2003 ''7'' ?st'
             = (Inr (Some (b64encode ''abc''), Some ''image/png''), ?st')"
    using hit [rule_format, OF isdigit_7 t(1), of demo_upstream 2001 2002 2003] t rc
    by (simp del: b64encode.simps)
  have b: "get_image demo_images 999 1000 1001 1002 ''7'' fresh
             = (Inr (Some (b64encode ''abc''), Some ''image/png''), ?st')"
    using miss [rule_format, OF isdigit_7 m, of 1001 1002] t rc
    by (simp del: b64encode.simps)
  from h isdigit_7 t(1) a m b show ?thesis by blast
qed

subsection \<open>Sensor states: times to live\<close>

lemma visible_same_time:
  "visible now e = Some (v, t) \<Longrightarrow> visible now (Some (v', t)) = Some (v', t)"
  by (auto simp: visible_def split: option.splits prod.splits if_splits)

lemma hmset_visible:
  "\<exists>v t. visible now (snd (apply_cmd now (HMSET k m) (visible now e))) = Some (v, t)"
proof (cases "visible now e")
  case None
  then show ?thesis by (simp add: visible_def)
next
  case (Some x)
  obtain v t where x: "x = (v, t)" by (cases x)
  from Some x have "visible now (Some (v', t)) = Some (v', t)" for v'
    using visible_same_time by simp
  with Some x show ?thesis by (cases v) auto
qed

lemma hmset_expire:
  "\<exists>v. snd (apply_cmd now (EXPIRE k ttl)
               (visible now (snd (apply_cmd now (HMSET k m) (visible now e)))))
        = Some (v, Some (now + real ttl))"
proof -
  from hmset_visible [of now k m e] obtain v t where
    "visible now (snd (apply_cmd now (HMSET k m) (visible now e))) = Some (v, t)" by blast
  then show ?thesis by simp
qed

lemma sensor_keys_differ:
  "sensor_status_key sid (str_int a) \<noteq> sensor_data_key sid (str_int b)"
  "sensor_status_key sid hw \<noteq> survey_sensors_key sid"
  "sensor_data_key sid hw \<noteq> survey_sensors_key sid"
  "sensor_status_key sid (str_int a) = sensor_status_key sid (str_int b) \<longleftrightarrow> a = b"
  "sensor_data_key sid (str_int a) = sensor_data_key sid (str_int b) \<longleftrightarrow> a = b"
proof -
  show "sensor_status_key sid (str_int a) \<noteq> sensor_data_key sid (str_int b)"
  proof
    assume "sensor_status_key sid (str_int a) = sensor_data_key sid (str_int b)"
    then have "str_int a @ CHR '':'' # ''status'' = str_int b @ CHR '':'' # ''data''"
      by (simp add: sensor_status_key_def sensor_data_key_def)
    from colon_split [OF colon_free_str_int colon_free_str_int this] show False by simp
  qed
qed (simp_all add: sensor_status_key_def sensor_data_key_def survey_sensors_key_def)

lemma sensor_cmds_status:
  "\<exists>v. entry_after now (sensor_status_key sid (str_int (HardwareID sd))) (sensor_cmds sid sd) e
        = Some (v, Some (now + real SENSOR_STATUS_TTL))"
  using hmset_expire [of now "sensor_status_key sid (str_int (HardwareID sd))" SENSOR_STATUS_TTL _ e]
    sensor_keys_differ(1) [of sid "HardwareID sd" "HardwareID sd"]
    sensor_keys_differ(1) [of sid "HardwareID sd" "HardwareID sd", symmetric]
    sensor_keys_differ(2) [of sid "str_int (HardwareID sd)", symmetric]
  by (simp add: sensor_cmds_def Let_def del: apply_cmd.simps)

lemma sensor_cmds_data:
  "\<exists>v. entry_after now (sensor_data_key sid (str_int (HardwareID sd))) (sensor_cmds sid sd) e
        = Some (v, Some (now + real SURVEY_TTL))"
  using hmset_expire [of now "sensor_data_key sid (str_int (HardwareID sd))" SURVEY_TTL _ e]
    sensor_keys_differ(1) [of sid "HardwareID sd" "HardwareID sd"]
    sensor_keys_differ(1) [of sid "HardwareID sd" "HardwareID sd", symmetric]
    sensor_keys_differ(3) [of sid "str_int (HardwareID sd)", symmetric]
  by (simp add: sensor_cmds_def Let_def del: apply_cmd.simps)

lemma sensor_cmds_keys:
  "key_of ` set (sensor_cmds sid sd)
     = {sensor_data_key sid (str_int (HardwareID sd)),
        sensor_status_key sid (str_int (HardwareID sd)),
        survey_sensors_key sid}"
  by (auto simp: sensor_cmds_def Let_def)

lemma sensor_states_pipeline_entries:
  assumes "sd \<in> set sensors"
  shows "\<exists>v. entry_after now (sensor_status_key sid (str_int (HardwareID sd)))
               (sensor_states_pipeline sid sensors) e
             = Some (v, Some (now + real SENSOR_STATUS_TTL))"
    and "\<exists>v. entry_after now (sensor_data_key sid (str_int (HardwareID sd)))
               (sensor_states_pipeline sid sensors) e
             = Some (v, Some (now + real SURVEY_TTL))"
proof -
  let ?hw = "HardwareID sd"
  from assms have "\<exists>x \<in> set sensors. HardwareID x = ?hw" by blast
  from split_list_last_prop [OF this] obtain pre x post where
    s: "sensors = pre @ x # post" and x: "HardwareID x = ?hw"
    and post: "\<forall>z \<in> set post. HardwareID z \<noteq> ?hw" by blast
  let ?f = "sensor_cmds sid"
  define before where "before = DEL (survey_sensors_key sid) # concat (map ?f pre)"
  define after where
    "after = concat (map ?f post) @ [EXPIRE (survey_sensors_key sid) SURVEY_TTL]"
  have cmds: "sensor_states_pipeline sid sensors = before @ ?f x @ after"
    by (simp add: sensor_states_pipeline_def s before_def after_def)
  let ?ks = "sensor_status_key sid (str_int ?hw)"
  let ?kd = "sensor_data_key sid (str_int ?hw)"
  have post_keys: "k \<in> {sensor_data_key sid (str_int (HardwareID z)),
                          sensor_status_key sid (str_int (HardwareID z)),
                          survey_sensors_key sid} \<and> HardwareID z \<noteq> ?hw"
    if "z \<in> set post" "k \<in> key_of ` set (?f z)" for z k
    using that post by (simp add: sensor_cmds_keys)
  have other_s: "?ks \<notin> key_of ` set after"
  proof
    assume "?ks \<in> key_of ` set after"
    then consider "?ks = survey_sensors_key sid"
      | z where "z \<in> set post" "?ks \<in> key_of ` set (?f z)" by (auto simp: after_def)
    then show False
    proof cases
      case 1
      then show ?thesis using sensor_keys_differ(2) by simp
    next
      case 2
      from post_keys [OF 2] show ?thesis
        using sensor_keys_differ(1) [of sid ?hw "HardwareID z"]
          sensor_keys_differ(2) [of sid "str_int ?hw"]
        by (auto simp: sensor_keys_differ(4))
    qed
  qed
  have other_d: "?kd \<notin> key_of ` set after"
  proof
    assume "?kd \<in> key_of ` set after"
    then consider "?kd = survey_sensors_key sid"
      | z where "z \<in> set post" "?kd \<in> key_of ` set (?f z)" by (auto simp: after_def)
    then show False
    proof cases
      case 1
      then show ?thesis using sensor_keys_differ(3) by simp
    next
      case 2
      from post_keys [OF 2] show ?thesis
        using sensor_keys_differ(1) [of sid "HardwareID z" ?hw]
          sensor_keys_differ(3) [of sid "str_int ?hw"]
        by (auto simp: sensor_keys_differ(5))
    qed
  qed
  show "\<exists>v. entry_after now ?ks (sensor_states_pipeline sid sensors) e
             = Some (v, Some (now + real SENSOR_STATUS_TTL))"
    using sensor_cmds_status [of now sid x] x
    by (simp only: cmds entry_after_append entry_after_other [OF other_s])
  show "\<exists>v. entry_after now ?kd (sensor_states_pipeline sid sensors) e
             = Some (v, Some (now + real SURVEY_TTL))"
    using sensor_cmds_data [of now sid x] x
    by (simp only: cmds entry_after_append entry_after_other [OF other_d])
qed

lemma cache_states_store:
  assumes "cache_all_survey_sensor_states up now survey_id st = (Inr (), st')"
  shows "\<exists>sensors.
           survey_sensors_latest_endpoint up survey_id = Some sensors
         \<and> r st' = snd (run_cmds now (sensor_states_pipeline survey_id sensors)
                          (r (snd (get_bearer_token up now st))))"
  using assms
  by (auto simp: cache_all_survey_sensor_states_def Let_def execute_def case_prod_beta
           split: sum.splits prod.splits option.splits if_splits)

text \<open>
  C6.  When the sensor state populator succeeds, every sensor of the upstream answer has its
  status record expiring at \<open>now + SENSOR_STATUS_TTL\<close> (60) and its data record expiring at
  \<open>now + SURVEY_TTL\<close> (86400): the status record's time to live is strictly the shorter.
\<close>

theorem sensor_status_ttl_shorter:
  assumes "cache_all_survey_sensor_states up now survey_id st = (Inr (), st')"
  shows "\<exists>all_sensors_data.
           survey_sensors_latest_endpoint up survey_id = Some all_sensors_data
         \<and> (\<forall>sensor_data \<in> set all_sensors_data.
              \<exists>status_value data_value.
                r st' (sensor_status_key survey_id (str_int (HardwareID sensor_data)))
                  = Some (status_value, Some (now + real SENSOR_STATUS_TTL))
              \<and> r st' (sensor_data_key survey_id (str_int (HardwareID sensor_data)))
                  = Some (data_value, Some (now + real SURVEY_TTL))
              \<and> now + real SENSOR_STATUS_TTL < now + real SURVEY_TTL)"
proof -
  from cache_states_store [OF assms] obtain sensors where
    e: "survey_sensors_latest_endpoint up survey_id = Some sensors"
    and r: "r st' = snd (run_cmds now (sensor_states_pipeline survey_id sensors)
                           (r (snd (get_bearer_token up now st))))"
    by blast
  have ttl: "now + real SENSOR_STATUS_TTL < now + real SURVEY_TTL"
    by (simp add: SENSOR_STATUS_TTL_def SURVEY_TTL_def)
  have "\<exists>status_value data_value.
          r st' (sensor_status_key survey_id (str_int (HardwareID sd)))
            = Some (status_value, Some (now + real SENSOR_STATUS_TTL))
        \<and> r st' (sensor_data_key survey_id (str_int (HardwareID sd)))
            = Some (data_value, Some (now + real SURVEY_TTL))
        \<and> now + real SENSOR_STATUS_TTL < now + real SURVEY_TTL"
    if "sd \<in> set sensors" for sd
    using sensor_states_pipeline_entries [OF that, of now survey_id] ttl
    by (simp only: r run_cmds_entry) blast
  with e show ?thesis by blast
qed

lemma str_int_500: "str_int 500 = ''500''"
  by code_simp

lemma demo_states:
  "fst (cache_all_survey_sensor_states demo_sensors 1000 ''42'' fresh) = Inr ()"
  by (simp add: cache_all_survey_sensor_states_def get_bearer_token_def token_valid_def
        bearer_def get_token_def Let_def fresh_def demo_sensors_def demo_upstream_def
        sensor_500_def execute_def case_prod_beta sensor_states_pipeline_def sensor_cmds_def
        str_int_500 fst_exec_cmd snd_exec_cmd r_set_def visible_def
        sensor_data_key_def sensor_status_key_def survey_sensors_key_def)

theorem sensor_status_ttl_shorter_witness:
  "cache_all_survey_sensor_states demo_sensors 1000 ''42'' fresh
     = (Inr (), snd (cache_all_survey_sensor_states demo_sensors 1000 ''42'' fresh))
   \<and> sensor_500 \<in> set [sensor_500]
   \<and> (\<exists>status_value data_value.
         r (snd (cache_all_survey_sensor_states demo_sensors 1000 ''42'' fresh))
           (sensor_status_key ''42'' (str_int (HardwareID sensor_500)))
           = Some (status_value, Some (1000 + real SENSOR_STATUS_TTL))
       \<and> r (snd (cache_all_survey_sensor_states demo_sensors 1000 ''42'' fresh))
           (sensor_data_key ''42'' (str_int (HardwareID sensor_500)))
           = Some (data_value, Some (1000 + real SURVEY_TTL))
       \<and> (1000 :: real) + real SENSOR_STATUS_TTL < 1000 + real SURVEY_TTL)"
proof -
  let ?st' = "snd (cache_all_survey_sensor_states demo_sensors 1000 ''42'' fresh)"
  have h: "cache_all_survey_sensor_states demo_sensors 1000 ''42'' fresh = (Inr (), ?st')"
    using demo_states by (simp add: prod_eq_iff)
  have e: "survey_sensors_latest_endpoint demo_sensors ''42'' = Some [sensor_500]"
    by (simp add: demo_sensors_def)
  from sensor_status_ttl_shorter [OF h] e h show ?thesis by auto
qed

subsection \<open>\<^verbatim>\<open>get_survey_sensors\<close>: the probe for cached states\<close>

lemmas eval_defs =
  get_survey_sensors_def map_sensors_step_def read_states_def
  cache_all_survey_sensor_states_def cache_sensors_for_map_def
  get_bearer_token_def token_valid_def bearer_def get_token_def Let_def
  fresh_def one_map_cached_def demo_floor_def demo_sensors_def demo_upstream_def sensor_500_def
  execute_def sensor_states_pipeline_def sensor_cmds_def
  map_sensors_pipeline_def map_item_cmds_def
  str_int_500 exec_cmd_def r_set_def SURVEY_TTL_def SENSOR_STATUS_TTL_def visible_def lookup_def
  r_llen_def r_lrange_def r_get_def r_hgetall_def list_range_def
  sensor_data_key_def sensor_status_key_def survey_sensors_key_def
  map_sensors_key_def sensor_properties_key_def probe_status_key_def
  survey_maps_key_def survey_map_key_def
  set_sensor_field_def dict_get_def isdigit_42 int_of_float_def

lemma str_int_1: "str_int 1 = ''1''" by code_simp
lemma str_int_2: "str_int 2 = ''2''" by code_simp

text \<open>
  C1 on the code.  Survey 42 has one map, 7, with one sensor, 500.  A first call of
  \<^verbatim>\<open>get_survey_sensors\<close> with states requested fetches the positions and the states.  After
  it the status record of sensor 500 is in the store, and yet a second call at the same
  instant sends the request for all sensor states again: the key the function probes,
  \<^verbatim>\<open>occupeye:surveys:42:maps:7:sensors:500:status\<close>, is not the key the populator writes,
  \<^verbatim>\<open>occupeye:surveys:42:sensors:500:status\<close>.
\<close>

theorem refresh_despite_cached_status:
  "r_hgetall 1000
     (r (snd (get_survey_sensors demo_floor 1000 ''42'' True one_map_cached)))
     (sensor_status_key ''42'' ''500'')
     = Inr [(''id'', ''500''), (''last_trigger_type'', ''Absent''),
            (''last_trigger_timestamp'', ''t1'')]
   \<and> sent (snd (get_survey_sensors demo_floor 1000 ''42'' True one_map_cached))
     = [PostToken, GetMap ''7'', GetSurveySensorsLatest ''42'']
   \<and> sent (snd (get_survey_sensors demo_floor 1000 ''42'' True
                   (snd (get_survey_sensors demo_floor 1000 ''42'' True one_map_cached))))
     = [PostToken, GetMap ''7'', GetSurveySensorsLatest ''42'', GetSurveySensorsLatest ''42'']"
  by (simp add: eval_defs str_int_1 str_int_2 hash_update_def)

subsection \<open>Kinds of the keys of surveys and maps\<close>

lemma suffix_last: "suffix suf k \<Longrightarrow> suf \<noteq> [] \<Longrightarrow> last k = last suf"
  by (auto simp: suffix_def)

lemma not_decimal_s: "\<not> is_decimal (CHR ''s'')"
  by (simp add: is_decimal_def)

lemma key_kind_surveys_decimal:
  assumes "x \<noteq> []" and "is_decimal (last x)"
  shows "key_kind (''occupeye:surveys:'' @ x) = KHash"
proof -
  let ?k = "''occupeye:surveys:'' @ x"
  have l: "last ?k = last x" using assms(1) by simp
  have "\<not> suffix '':maps'' ?k" "\<not> suffix '':sensors'' ?k"
    using suffix_last [of _ ?k] assms(2) not_decimal_s unfolding l by fastforce+
  then show ?thesis by (simp add: key_kind_def)
qed

lemma key_kind_survey_key: "key_kind (survey_key (str_int i)) = KHash"
  unfolding survey_key_def
  by (rule key_kind_surveys_decimal) (simp_all add: str_int_not_Nil last_str_int_decimal)

lemma key_kind_survey_map_key: "key_kind (survey_map_key s (str_int m)) = KHash"
proof -
  have "survey_map_key s (str_int m) = ''occupeye:surveys:'' @ (s @ '':maps:'' @ str_int m)"
    by (simp add: survey_map_key_def)
  moreover have "key_kind (''occupeye:surveys:'' @ (s @ '':maps:'' @ str_int m)) = KHash"
    by (rule key_kind_surveys_decimal) (simp_all add: str_int_not_Nil last_str_int_decimal)
  ultimately show ?thesis by simp
qed

lemma key_kind_survey_maps_key: "key_kind (survey_maps_key s) = KList"
  by (simp add: key_kind_def survey_maps_key_def suffix_def)

lemma key_kind_surveys: "key_kind ''occupeye:surveys'' = KList"
  by (simp add: key_kind_def)

lemma key_kind_token:
  "key_kind ''occupeye:access_token'' = KString"
  "key_kind ''occupeye:access_token_expiry'' = KString"
  by (simp_all add: key_kind_def)

lemma fits_map_cmds: "list_all fits (map_cmds i m)"
  by (simp add: map_cmds_def Let_def fits_def key_kind_survey_map_key key_kind_survey_maps_key)

lemma fits_no_kind: "fits (DEL k)" "fits (EXPIRE k ttl)"
  by (simp_all add: fits_def)

lemma fits_maps_pipeline: "list_all fits (maps_pipeline i ms)"
  using fits_map_cmds by (auto simp: maps_pipeline_def list_all_iff fits_no_kind)

lemma fits_survey_cmds: "list_all fits (survey_cmds s)"
  by (simp add: survey_cmds_def Let_def fits_def key_kind_survey_key key_kind_surveys)

lemma typed_empty: "typed Map.empty"
  by (simp add: typed_def)

subsection \<open>The credential during a refresh\<close>

lemma typed_r_set:
  "typed db \<Longrightarrow> key_kind k = KString \<Longrightarrow> typed (r_set now db k v)"
  unfolding r_set_def using exec_cmd_typed [of db "SET k v" now]
  by (simp add: fits_def)

lemma r_set_other: "k' \<noteq> k \<Longrightarrow> r_set now db k v k' = db k'"
  by (simp add: r_set_def snd_exec_cmd)

lemma get_bearer_token_ok:
  assumes "token_endpoint up = Some tk" and "credential_ok st" and "typed (r st)"
  shows "\<exists>b st'. get_bearer_token up now st = (Inr b, st')
           \<and> credential_ok st' \<and> typed (r st')
           \<and> (\<forall>k. k \<noteq> ''occupeye:access_token'' \<longrightarrow> k \<noteq> ''occupeye:access_token_expiry''
                  \<longrightarrow> r st' k = r st k)"
proof -
  obtain tok ttl where tk: "tk = (tok, ttl)" by (cases tk)
  show ?thesis
  proof (cases "token_valid now st")
    case (Inl e)
    with assms(2) show ?thesis
      by (auto simp: token_valid_def credential_ok_def split: option.splits if_splits)
  next
    case (Inr v)
    show ?thesis
    proof (cases v)
      case True
      with Inr assms show ?thesis
        by (auto simp: get_bearer_token_def bearer_def token_valid_def
                 split: option.splits if_splits)
    next
      case False
      have t: "typed (r_set now (r_set now (r st) ''occupeye:access_token'' tok)
                        ''occupeye:access_token_expiry'' (str_int (int_of_float now + ttl)))"
        by (intro typed_r_set assms(3) key_kind_token)
      with False Inr assms(1) tk show ?thesis
        by (simp add: get_bearer_token_def bearer_def get_token_def Let_def credential_ok_def
              r_set_other)
    qed
  qed
qed

subsection \<open>What the map populator leaves in the store\<close>

lemma map_keys_differ:
  "survey_map_key s x \<noteq> survey_maps_key s"
  "survey_maps_key s \<noteq> survey_map_key s x"
  by (simp_all add: survey_map_key_def survey_maps_key_def)

lemma survey_map_key_eq [simp]: "survey_map_key s x = survey_map_key s y \<longleftrightarrow> x = y"
  by (simp add: survey_map_key_def)

lemma map_cmds_keys:
  "key_of ` set (map_cmds i m)
     = {survey_map_key (str_int i) (str_int (MapID m)), survey_maps_key (str_int i)}"
  by (auto simp: map_cmds_def Let_def)

lemma maps_pipeline_keys:
  "key_of ` set (maps_pipeline i ms)
     \<subseteq> insert (survey_maps_key (str_int i)) {k. \<exists>x. k = survey_map_key (str_int i) x}"
proof
  fix k
  assume "k \<in> key_of ` set (maps_pipeline i ms)"
  then consider "k = survey_maps_key (str_int i)"
    | m where "m \<in> set ms" "k \<in> key_of ` set (map_cmds i m)"
    by (auto simp: maps_pipeline_def)
  then show "k \<in> insert (survey_maps_key (str_int i))
                    {k. \<exists>x. k = survey_map_key (str_int i) x}"
  proof cases
    case 1
    then show ?thesis by simp
  next
    case 2
    then show ?thesis unfolding map_cmds_keys by auto
  qed
qed

lemma visible_pushed [simp]: "visible now (pushed xs) = pushed xs"
  by (simp add: pushed_def visible_def)

lemma map_cmds_list:
  "entry_after now (survey_maps_key (str_int i)) (map_cmds i m) (pushed xs)
     = pushed (xs @ [str_int (MapID m)])"
  by (simp add: map_cmds_def Let_def map_keys_differ pushed_def visible_def)

lemma map_cmds_lists:
  "entry_after now (survey_maps_key (str_int i)) (concat (map (map_cmds i) ms)) (pushed xs)
     = pushed (xs @ map (\<lambda>m. str_int (MapID m)) ms)"
proof (induction ms arbitrary: xs)
  case Nil
  then show ?case by simp
next
  case (Cons m ms)
  show ?case
    by (simp add: entry_after_append map_cmds_list Cons.IH del: entry_after.simps)
qed

lemma maps_pipeline_list:
  "entry_after now (survey_maps_key (str_int i)) (maps_pipeline i ms) e
     = (if ms = [] then None
        else Some (RList (map (\<lambda>m. str_int (MapID m)) ms), Some (now + real SURVEY_TTL)))"
proof -
  let ?L = "survey_maps_key (str_int i)"
  have a: "entry_after now ?L (concat (map (map_cmds i) ms)) None
             = pushed (map (\<lambda>m. str_int (MapID m)) ms)"
    using map_cmds_lists [of now i ms "[]"] by (simp add: pushed_def)
  have b: "entry_after now ?L (maps_pipeline i ms) e
      = entry_after now ?L [EXPIRE ?L SURVEY_TTL]
          (entry_after now ?L (concat (map (map_cmds i) ms)) None)"
    by (simp add: maps_pipeline_def entry_after_append)
  show ?thesis
    unfolding b a by (simp add: pushed_def visible_def)
qed

lemma entry_after_kind:
  assumes "\<forall>v t. e = Some (v, t) \<longrightarrow> kind_of v = kd"
    and "\<forall>c \<in> set cs. key_of c = k \<longrightarrow> cmd_kind c = None \<or> cmd_kind c = Some kd"
  shows "\<forall>v t. entry_after now k cs e = Some (v, t) \<longrightarrow> kind_of v = kd"
  using assms
proof (induction cs arbitrary: e)
  case Nil
  then show ?case by simp
next
  case (Cons c cs)
  show ?case
  proof (cases "key_of c = k")
    case True
    with Cons.prems have "cmd_kind c = None \<or> cmd_kind c = Some kd" by simp
    from apply_cmd_typed [OF Cons.prems(1) this, of now]
    have "\<forall>v t. snd (apply_cmd now c (visible now e)) = Some (v, t) \<longrightarrow> kind_of v = kd"
      by simp
    from Cons.IH [OF this] Cons.prems(2) True show ?thesis by simp
  next
    case False
    with Cons.IH [OF Cons.prems(1)] Cons.prems(2) show ?thesis by simp
  qed
qed

lemma hmset_expire_hash:
  assumes "\<forall>v t. e = Some (v, t) \<longrightarrow> kind_of v = KHash"
  shows "\<exists>h0. snd (apply_cmd now (EXPIRE k ttl)
                 (visible now (snd (apply_cmd now (HMSET k m) (visible now e)))))
             = Some (RHash (hash_update m h0), Some (now + real ttl))"
proof (cases "visible now e")
  case None
  then show ?thesis by (auto simp: visible_def)
next
  case (Some x)
  obtain v t where x: "x = (v, t)" by (cases x)
  from Some have e: "e = Some x" by (rule visible_Some)
  with assms x obtain h where v: "v = RHash h" by (cases v) auto
  from Some x have "visible now (Some (v', t)) = Some (v', t)" for v'
    using visible_same_time by simp
  with Some x v show ?thesis by auto
qed

lemma map_cmds_hash:
  assumes "\<forall>v t. e = Some (v, t) \<longrightarrow> kind_of v = KHash"
  shows "\<exists>h0. entry_after now (survey_map_key (str_int i) (str_int (MapID m))) (map_cmds i m) e
             = Some (RHash (hash_update (map_fields m) h0), Some (now + real SURVEY_TTL))"
  using hmset_expire_hash [OF assms, of now "survey_map_key (str_int i) (str_int (MapID m))"
      SURVEY_TTL "map_fields m"]
  by (simp add: map_cmds_def Let_def map_keys_differ map_fields_def del: apply_cmd.simps)

lemma maps_pipeline_hash:
  assumes "m \<in> set ms" and "\<forall>v t. e = Some (v, t) \<longrightarrow> kind_of v = KHash"
  shows "\<exists>x h0. x \<in> set ms \<and> MapID x = MapID m
           \<and> entry_after now (survey_map_key (str_int i) (str_int (MapID m)))
                (maps_pipeline i ms) e
             = Some (RHash (hash_update (map_fields x) h0), Some (now + real SURVEY_TTL))"
proof -
  let ?K = "survey_map_key (str_int i) (str_int (MapID m))"
  from assms(1) have "\<exists>x \<in> set ms. MapID x = MapID m" by blast
  from split_list_last_prop [OF this] obtain pre x post where
    s: "ms = pre @ x # post" and x: "MapID x = MapID m"
    and post: "\<forall>z \<in> set post. MapID z \<noteq> MapID m" by blast
  define before where
    "before = DEL (survey_maps_key (str_int i)) # concat (map (map_cmds i) pre)"
  define after where
    "after = concat (map (map_cmds i) post) @ [EXPIRE (survey_maps_key (str_int i)) SURVEY_TTL]"
  have cmds: "maps_pipeline i ms = before @ map_cmds i x @ after"
    by (simp add: maps_pipeline_def s before_def after_def)
  have other: "?K \<notin> key_of ` set after"
  proof
    assume "?K \<in> key_of ` set after"
    then consider "?K = survey_maps_key (str_int i)"
      | z where "z \<in> set post" "?K \<in> key_of ` set (map_cmds i z)"
      by (auto simp: after_def)
    then show False
    proof cases
      case 1
      then show ?thesis using map_keys_differ by simp
    next
      case 2
      then show ?thesis using post map_keys_differ by (auto simp: map_cmds_keys)
    qed
  qed
  have "\<forall>c \<in> set before. key_of c = ?K \<longrightarrow> cmd_kind c = None \<or> cmd_kind c = Some KHash"
    by (auto simp: before_def map_cmds_def Let_def map_keys_differ)
  from entry_after_kind [OF assms(2) this]
  have "\<forall>v t. entry_after now ?K before e = Some (v, t) \<longrightarrow> kind_of v = KHash" .
  from map_cmds_hash [OF this, of now i x] x obtain h0 where
    "entry_after now ?K (map_cmds i x) (entry_after now ?K before e)
       = Some (RHash (hash_update (map_fields x) h0), Some (now + real SURVEY_TTL))"
    by auto
  then have "entry_after now ?K (maps_pipeline i ms) e
       = Some (RHash (hash_update (map_fields x) h0), Some (now + real SURVEY_TTL))"
    by (simp only: cmds entry_after_append entry_after_other [OF other])
  with s x show ?thesis by auto
qed

lemma now_before_ttl: "now < now + real SURVEY_TTL"
  by (simp add: SURVEY_TTL_def)

lemma read_map_stored:
  assumes "db (survey_map_key sid (str_int (MapID x)))
             = Some (RHash (hash_update (map_fields x) h0), Some (now + real SURVEY_TTL))"
  shows "read_map now db sid (str_int (MapID x))
           = Inr \<lparr>m_id = MapID x, m_name = MapName x, m_image_id = ImageID x\<rparr>"
  using assms now_before_ttl [of now]
  by (simp add: read_map_def r_hgetall_def lookup_def visible_def dict_get_def
        hash_update_def map_fields_def update_conv' py_int_str_int)

lemma read_maps_all:
  assumes "\<forall>x \<in> set xs. \<exists>d. read_map now db sid x = Inr d"
  shows "\<exists>res. read_maps now db sid xs = Inr res"
  using assms by (induction xs) auto

lemma maps_pipeline_readable:
  assumes "typed db"
  shows "maps_readable now (snd (run_cmds now (maps_pipeline i ms) db)) (str_int i)"
proof -
  let ?db = "snd (run_cmds now (maps_pipeline i ms) db)"
  let ?ids = "map (\<lambda>m. str_int (MapID m)) ms"
  let ?L = "survey_maps_key (str_int i)"
  have l: "lookup now ?db ?L = (if ms = [] then None else Some (RList ?ids))"
    using now_before_ttl [of now]
    by (simp add: lookup_def run_cmds_entry maps_pipeline_list visible_def)
  have len: "r_llen now ?db ?L = Inr (length ?ids)"
    using l by (simp add: r_llen_def)
  have rng: "r_lrange now ?db ?L 0 (int (length ?ids)) = Inr ?ids"
    using l list_range_all [of ?ids] by (simp add: r_lrange_def)
  have "\<exists>d. read_map now ?db (str_int i) x = Inr d" if "x \<in> set ?ids" for x
  proof -
    from that obtain m where m: "m \<in> set ms" "x = str_int (MapID m)" by auto
    have "\<forall>v t. db (survey_map_key (str_int i) (str_int (MapID m))) = Some (v, t)
            \<longrightarrow> kind_of v = KHash"
      using assms key_kind_survey_map_key [of "str_int i" "MapID m"] by (simp add: typed_def)
    from maps_pipeline_hash [OF m(1) this, of now i] obtain y h0 where
      y: "MapID y = MapID m"
      and "?db (survey_map_key (str_int i) (str_int (MapID m)))
             = Some (RHash (hash_update (map_fields y) h0), Some (now + real SURVEY_TTL))"
      by (auto simp: run_cmds_entry)
    then have "?db (survey_map_key (str_int i) (str_int (MapID y)))
             = Some (RHash (hash_update (map_fields y) h0), Some (now + real SURVEY_TTL))"
      by simp
    from read_map_stored [of ?db "str_int i" y h0 now, OF this] y m(2) show ?thesis by simp
  qed
  then have "\<exists>res. read_maps now ?db (str_int i) ?ids = Inr res"
    by (intro read_maps_all) blast
  with len rng show ?thesis unfolding maps_readable_def by blast
qed

lemma read_maps_cong:
  assumes "\<forall>x. db' (survey_map_key sid x) = db (survey_map_key sid x)"
  shows "read_maps now db' sid xs = read_maps now db sid xs"
proof -
  have "read_map now db' sid x = read_map now db sid x" for x
    using assms by (simp add: read_map_def r_hgetall_def lookup_def)
  then show ?thesis by (induction xs) (simp_all split: sum.splits)
qed

lemma maps_readable_cong:
  assumes "db' (survey_maps_key sid) = db (survey_maps_key sid)"
    and "\<forall>x. db' (survey_map_key sid x) = db (survey_map_key sid x)"
  shows "maps_readable now db' sid = maps_readable now db sid"
  using assms(1) read_maps_cong [OF assms(2), of now]
  by (simp add: maps_readable_def r_llen_def r_lrange_def lookup_def)

lemma cache_maps_for_survey_ok:
  assumes "token_endpoint up = Some tk" and "credential_ok st" and "typed (r st)"
    and "maps_endpoint up (str_int i) = Some ms"
  shows "\<exists>st'. cache_maps_for_survey up now i st = (Inr (), st')
           \<and> credential_ok st' \<and> typed (r st')
           \<and> maps_readable now (r st') (str_int i)
           \<and> (\<forall>k. k \<noteq> ''occupeye:access_token'' \<longrightarrow> k \<noteq> ''occupeye:access_token_expiry''
                  \<longrightarrow> k \<noteq> survey_maps_key (str_int i)
                  \<longrightarrow> (\<forall>x. k \<noteq> survey_map_key (str_int i) x)
                  \<longrightarrow> r st' k = r st k)"
proof -
  from get_bearer_token_ok [OF assms(1-3), of now] obtain b st1 where
    g: "get_bearer_token up now st = (Inr b, st1)"
    and c1: "credential_ok st1" and t1: "typed (r st1)"
    and f1: "\<forall>k. k \<noteq> ''occupeye:access_token'' \<longrightarrow> k \<noteq> ''occupeye:access_token_expiry''
                  \<longrightarrow> r st1 k = r st k"
    by blast
  let ?st2 = "st1\<lparr>sent := sent st1 @ [GetMaps (str_int i)]\<rparr>"
  let ?db = "snd (run_cmds now (maps_pipeline i ms) (r st1))"
  let ?st' = "?st2\<lparr>r := ?db\<rparr>"
  from execute_typed [OF t1 fits_maps_pipeline, of now i ms]
  have ex: "execute now (maps_pipeline i ms) (r st1)
              = (Inr (fst (run_cmds now (maps_pipeline i ms) (r st1))), ?db)"
    and t': "typed ?db" by auto
  have res: "cache_maps_for_survey up now i st = (Inr (), ?st')"
    using g assms(4) ex by (simp add: cache_maps_for_survey_def)
  have c': "credential_ok ?st'" using c1 by (simp add: credential_ok_def)
  have rd: "maps_readable now (r ?st') (str_int i)"
    using maps_pipeline_readable [OF t1, of now i ms] by simp
  have fr: "r ?st' k = r st k"
    if "k \<noteq> ''occupeye:access_token''" "k \<noteq> ''occupeye:access_token_expiry''"
      "k \<noteq> survey_maps_key (str_int i)" "\<forall>x. k \<noteq> survey_map_key (str_int i) x" for k
  proof -
    have "k \<notin> key_of ` set (maps_pipeline i ms)"
      using maps_pipeline_keys [of i ms] that(3,4) by auto
    then have "?db k = r st1 k" by (simp add: run_cmds_entry entry_after_other)
    with f1 that(1,2) show ?thesis by simp
  qed
  from res c' t' rd fr show ?thesis by (intro exI [of _ ?st']) simp
qed

subsection \<open>The keys of different surveys\<close>

lemma survey_maps_key_eq [simp]:
  "survey_maps_key a = survey_maps_key b \<longleftrightarrow> a = b"
  by (simp add: survey_maps_key_def)

lemma survey_map_key_not_maps_key:
  "survey_map_key (str_int i) x \<noteq> survey_maps_key (str_int j)"
proof
  assume "survey_map_key (str_int i) x = survey_maps_key (str_int j)"
  then have "str_int i @ CHR '':'' # (''maps:'' @ x) = str_int j @ CHR '':'' # ''maps''"
    by (simp add: survey_map_key_def survey_maps_key_def)
  from colon_split [OF colon_free_str_int colon_free_str_int this] show False by simp
qed

lemma survey_map_key_inj:
  assumes "survey_map_key (str_int i) x = survey_map_key (str_int j) y"
  shows "i = j"
proof -
  from assms have "str_int i @ CHR '':'' # (''maps:'' @ x) = str_int j @ CHR '':'' # (''maps:'' @ y)"
    by (simp add: survey_map_key_def)
  from colon_split [OF colon_free_str_int colon_free_str_int this] show ?thesis by simp
qed

lemma token_keys_not_survey:
  "survey_maps_key s \<noteq> ''occupeye:access_token''"
  "survey_maps_key s \<noteq> ''occupeye:access_token_expiry''"
  "survey_map_key s x \<noteq> ''occupeye:access_token''"
  "survey_map_key s x \<noteq> ''occupeye:access_token_expiry''"
  "survey_key s \<noteq> ''occupeye:access_token''"
  "survey_key s \<noteq> ''occupeye:access_token_expiry''"
  "survey_maps_key s \<noteq> ''occupeye:surveys''"
  "survey_map_key s x \<noteq> ''occupeye:surveys''"
  "survey_key s \<noteq> ''occupeye:surveys''"
  by (simp_all add: survey_maps_key_def survey_map_key_def survey_key_def)

lemma survey_key_not_area:
  "survey_key (str_int i) \<noteq> survey_maps_key s"
  "survey_key (str_int i) \<noteq> survey_map_key s x"
proof -
  have c: "CHR '':'' \<notin> set (str_int i)" by (rule colon_free_str_int)
  show "survey_key (str_int i) \<noteq> survey_maps_key s"
  proof
    assume "survey_key (str_int i) = survey_maps_key s"
    then have "str_int i = s @ '':maps''" by (simp add: survey_key_def survey_maps_key_def)
    with c show False by simp
  qed
  show "survey_key (str_int i) \<noteq> survey_map_key s x"
  proof
    assume "survey_key (str_int i) = survey_map_key s x"
    then have "str_int i = s @ '':maps:'' @ x" by (simp add: survey_key_def survey_map_key_def)
    with c show False by simp
  qed
qed

lemma survey_key_eq [simp]: "survey_key a = survey_key b \<longleftrightarrow> a = b"
  by (simp add: survey_key_def)

subsection \<open>The loop over the surveys\<close>

lemma maps_readable_kept:
  assumes rd: "maps_readable now db (str_int i)"
    and fr: "\<And>k. k \<noteq> ''occupeye:access_token'' \<Longrightarrow> k \<noteq> ''occupeye:access_token_expiry''
            \<Longrightarrow> (\<forall>j \<in> J. k \<noteq> survey_maps_key (str_int j)
                     \<and> (\<forall>x. k \<noteq> survey_map_key (str_int j) x))
            \<Longrightarrow> db' k = db k"
    and notin: "i \<notin> J"
  shows "maps_readable now db' (str_int i)"
proof -
  have a: "db' (survey_maps_key (str_int i)) = db (survey_maps_key (str_int i))"
  proof (rule fr)
    show "survey_maps_key (str_int i) \<noteq> ''occupeye:access_token''"
      by (rule token_keys_not_survey)
    show "survey_maps_key (str_int i) \<noteq> ''occupeye:access_token_expiry''"
      by (rule token_keys_not_survey)
    show "\<forall>j \<in> J. survey_maps_key (str_int i) \<noteq> survey_maps_key (str_int j)
            \<and> (\<forall>x. survey_maps_key (str_int i) \<noteq> survey_map_key (str_int j) x)"
    proof (intro ballI conjI allI)
      fix j assume "j \<in> J"
      with notin have "i \<noteq> j" by auto
      then show "survey_maps_key (str_int i) \<noteq> survey_maps_key (str_int j)" by simp
    next
      fix j x
      show "survey_maps_key (str_int i) \<noteq> survey_map_key (str_int j) x"
        using survey_map_key_not_maps_key [of j x i] by (rule not_sym)
    qed
  qed
  have b: "db' (survey_map_key (str_int i) x) = db (survey_map_key (str_int i) x)" for x
  proof (rule fr)
    show "survey_map_key (str_int i) x \<noteq> ''occupeye:access_token''"
      by (rule token_keys_not_survey)
    show "survey_map_key (str_int i) x \<noteq> ''occupeye:access_token_expiry''"
      by (rule token_keys_not_survey)
    show "\<forall>j \<in> J. survey_map_key (str_int i) x \<noteq> survey_maps_key (str_int j)
            \<and> (\<forall>y. survey_map_key (str_int i) x \<noteq> survey_map_key (str_int j) y)"
    proof (intro ballI conjI allI)
      fix j
      show "survey_map_key (str_int i) x \<noteq> survey_maps_key (str_int j)"
        by (rule survey_map_key_not_maps_key)
    next
      fix j y assume "j \<in> J"
      with notin have "i \<noteq> j" by auto
      then show "survey_map_key (str_int i) x \<noteq> survey_map_key (str_int j) y"
        using survey_map_key_inj [of i x j y] by blast
    qed
  qed
  have "maps_readable now db' (str_int i) = maps_readable now db (str_int i)"
    by (rule maps_readable_cong) (simp_all add: a b)
  with rd show ?thesis by simp
qed

lemma cache_surveys_loop_ok:
  assumes "token_endpoint up = Some tk" and "credential_ok st" and "typed (r st)"
    and "\<forall>s \<in> set ss. maps_endpoint up (str_int (SurveyID s)) \<noteq> None"
    and "distinct (map SurveyID ss)"
  shows "\<exists>st'. cache_surveys_loop up now ss p st = (Inr (p @ concat (map survey_cmds ss)), st')
           \<and> credential_ok st' \<and> typed (r st')
           \<and> (\<forall>s \<in> set ss. maps_readable now (r st') (str_int (SurveyID s)))
           \<and> (\<forall>k. k \<noteq> ''occupeye:access_token'' \<longrightarrow> k \<noteq> ''occupeye:access_token_expiry''
                 \<longrightarrow> (\<forall>j \<in> SurveyID ` set ss. k \<noteq> survey_maps_key (str_int j)
                          \<and> (\<forall>x. k \<noteq> survey_map_key (str_int j) x))
                 \<longrightarrow> r st' k = r st k)"
  using assms(2-5)
proof (induction ss arbitrary: p st)
  case Nil
  then show ?case by simp
next
  case (Cons s ss)
  let ?i = "SurveyID s"
  from Cons.prems(3) obtain ms where ms: "maps_endpoint up (str_int ?i) = Some ms" by auto
  from cache_maps_for_survey_ok [OF assms(1) Cons.prems(1,2) ms, of now] obtain st1 where
    c: "cache_maps_for_survey up now ?i st = (Inr (), st1)"
    and c1: "credential_ok st1" and t1: "typed (r st1)"
    and rd: "maps_readable now (r st1) (str_int ?i)"
    and f1: "\<forall>k. k \<noteq> ''occupeye:access_token'' \<longrightarrow> k \<noteq> ''occupeye:access_token_expiry''
                  \<longrightarrow> k \<noteq> survey_maps_key (str_int ?i)
                  \<longrightarrow> (\<forall>x. k \<noteq> survey_map_key (str_int ?i) x)
                  \<longrightarrow> r st1 k = r st k"
    by blast
  from Cons.prems(3) have p3: "\<forall>s \<in> set ss. maps_endpoint up (str_int (SurveyID s)) \<noteq> None"
    by simp
  from Cons.prems(4) have p4: "distinct (map SurveyID ss)"
    and notin: "?i \<notin> SurveyID ` set ss" by simp_all
  from Cons.IH [OF c1 t1 p3 p4, of "p @ survey_cmds s"] obtain st' where
    l: "cache_surveys_loop up now ss (p @ survey_cmds s) st1
          = (Inr ((p @ survey_cmds s) @ concat (map survey_cmds ss)), st')"
    and c': "credential_ok st'" and t': "typed (r st')"
    and rd': "\<forall>s \<in> set ss. maps_readable now (r st') (str_int (SurveyID s))"
    and f': "\<forall>k. k \<noteq> ''occupeye:access_token'' \<longrightarrow> k \<noteq> ''occupeye:access_token_expiry''
                 \<longrightarrow> (\<forall>j \<in> SurveyID ` set ss. k \<noteq> survey_maps_key (str_int j)
                          \<and> (\<forall>x. k \<noteq> survey_map_key (str_int j) x))
                 \<longrightarrow> r st' k = r st1 k"
    by blast
  have res: "cache_surveys_loop up now (s # ss) p st
               = (Inr (p @ concat (map survey_cmds (s # ss))), st')"
    using c l by simp
  have rds: "maps_readable now (r st') (str_int ?i)"
  proof (rule maps_readable_kept [OF rd _ notin])
    fix k
    assume "k \<noteq> ''occupeye:access_token''" "k \<noteq> ''occupeye:access_token_expiry''"
      "\<forall>j \<in> SurveyID ` set ss. k \<noteq> survey_maps_key (str_int j)
          \<and> (\<forall>x. k \<noteq> survey_map_key (str_int j) x)"
    with f' show "r st' k = r st1 k" by blast
  qed
  have rdall: "\<forall>s' \<in> set (s # ss). maps_readable now (r st') (str_int (SurveyID s'))"
    using rds rd' by simp
  have fr: "\<forall>k. k \<noteq> ''occupeye:access_token'' \<longrightarrow> k \<noteq> ''occupeye:access_token_expiry''
                 \<longrightarrow> (\<forall>j \<in> SurveyID ` set (s # ss). k \<noteq> survey_maps_key (str_int j)
                          \<and> (\<forall>x. k \<noteq> survey_map_key (str_int j) x))
                 \<longrightarrow> r st' k = r st k"
  proof (intro allI impI)
    fix k
    assume k: "k \<noteq> ''occupeye:access_token''" "k \<noteq> ''occupeye:access_token_expiry''"
      and a: "\<forall>j \<in> SurveyID ` set (s # ss). k \<noteq> survey_maps_key (str_int j)
          \<and> (\<forall>x. k \<noteq> survey_map_key (str_int j) x)"
    from a have a1: "k \<noteq> survey_maps_key (str_int ?i)" "\<forall>x. k \<noteq> survey_map_key (str_int ?i) x"
      by simp_all
    from a have a2: "\<forall>j \<in> SurveyID ` set ss. k \<noteq> survey_maps_key (str_int j)
          \<and> (\<forall>x. k \<noteq> survey_map_key (str_int j) x)"
      by simp
    from f' k a2 have "r st' k = r st1 k" by blast
    moreover from f1 k a1 have "r st1 k = r st k" by blast
    ultimately show "r st' k = r st k" by simp
  qed
  show ?case
    by (rule exI [of _ st']) (intro conjI res c' t' rdall fr)
qed

subsection \<open>What the survey populator leaves in the store\<close>

lemma surveys_key_not_survey: "''occupeye:surveys'' \<noteq> survey_key s"
  by (simp add: survey_key_def)

lemma survey_cmds_keys:
  "key_of ` set (survey_cmds s) = {survey_key (str_int (SurveyID s)), ''occupeye:surveys''}"
  by (auto simp: survey_cmds_def Let_def)

lemma survey_cmds_list:
  "entry_after now ''occupeye:surveys'' (survey_cmds s) (pushed xs)
     = pushed (str_int (SurveyID s) # xs)"
  by (simp add: survey_cmds_def Let_def token_keys_not_survey pushed_def visible_def)

lemma survey_cmds_lists:
  "entry_after now ''occupeye:surveys'' (concat (map survey_cmds ss)) (pushed xs)
     = pushed (rev (map (\<lambda>s. str_int (SurveyID s)) ss) @ xs)"
proof (induction ss arbitrary: xs)
  case Nil
  then show ?case by simp
next
  case (Cons s ss)
  show ?case
    by (simp add: entry_after_append survey_cmds_list Cons.IH del: entry_after.simps)
qed

lemma surveys_pipeline_list:
  "entry_after now ''occupeye:surveys'' (surveys_pipeline ss) e
     = (if ss = [] then None
        else Some (RList (rev (map (\<lambda>s. str_int (SurveyID s)) ss)),
                   Some (now + real SURVEY_TTL)))"
proof -
  let ?L = "''occupeye:surveys''"
  have a: "entry_after now ?L (concat (map survey_cmds ss)) None
             = pushed (rev (map (\<lambda>s. str_int (SurveyID s)) ss))"
    using survey_cmds_lists [of now ss "[]"] by (simp add: pushed_def)
  have b: "entry_after now ?L (surveys_pipeline ss) e
      = entry_after now ?L [EXPIRE ?L SURVEY_TTL]
          (entry_after now ?L (concat (map survey_cmds ss)) None)"
    by (simp add: surveys_pipeline_def entry_after_append)
  show ?thesis
    unfolding b a by (simp add: pushed_def visible_def)
qed

lemma survey_cmds_hash:
  assumes "\<forall>v t. e = Some (v, t) \<longrightarrow> kind_of v = KHash"
  shows "\<exists>h0. entry_after now (survey_key (str_int (SurveyID s))) (survey_cmds s) e
             = Some (RHash (hash_update (survey_fields s) h0), Some (now + real SURVEY_TTL))"
  using hmset_expire_hash [OF assms, of now "survey_key (str_int (SurveyID s))"
      SURVEY_TTL "survey_fields s"]
  by (simp add: survey_cmds_def Let_def surveys_key_not_survey survey_fields_def
        del: apply_cmd.simps)

lemma surveys_pipeline_hash:
  assumes "s \<in> set ss" and "distinct (map SurveyID ss)"
    and "\<forall>v t. e = Some (v, t) \<longrightarrow> kind_of v = KHash"
  shows "\<exists>h0. entry_after now (survey_key (str_int (SurveyID s))) (surveys_pipeline ss) e
             = Some (RHash (hash_update (survey_fields s) h0), Some (now + real SURVEY_TTL))"
proof -
  let ?K = "survey_key (str_int (SurveyID s))"
  from assms(1) obtain pre post where s: "ss = pre @ s # post"
    by (auto simp: in_set_conv_decomp)
  with assms(2) have "SurveyID s \<notin> SurveyID ` set post" by simp
  then have post: "\<forall>z \<in> set post. SurveyID z \<noteq> SurveyID s"
    by (metis imageI)
  define before where "before = DEL ''occupeye:surveys'' # concat (map survey_cmds pre)"
  define after where
    "after = concat (map survey_cmds post) @ [EXPIRE ''occupeye:surveys'' SURVEY_TTL]"
  have cmds: "surveys_pipeline ss = before @ survey_cmds s @ after"
    by (simp add: surveys_pipeline_def s before_def after_def)
  have other: "?K \<notin> key_of ` set after"
  proof
    assume "?K \<in> key_of ` set after"
    then consider "?K = ''occupeye:surveys''"
      | z where "z \<in> set post" "?K \<in> key_of ` set (survey_cmds z)"
      by (auto simp: after_def)
    then show False
    proof cases
      case 1
      then show ?thesis using surveys_key_not_survey [of "str_int (SurveyID s)"] by simp
    next
      case 2
      then show ?thesis
        using post surveys_key_not_survey [of "str_int (SurveyID s)"]
        by (auto simp: survey_cmds_keys)
    qed
  qed
  have "\<forall>c \<in> set before. key_of c = ?K \<longrightarrow> cmd_kind c = None \<or> cmd_kind c = Some KHash"
    using surveys_key_not_survey [of "str_int (SurveyID s)"]
    by (auto simp: before_def survey_cmds_def Let_def)
  from entry_after_kind [OF assms(3) this]
  have "\<forall>v t. entry_after now ?K before e = Some (v, t) \<longrightarrow> kind_of v = KHash" .
  from survey_cmds_hash [OF this, of now s] obtain h0 where
    "entry_after now ?K (survey_cmds s) (entry_after now ?K before e)
       = Some (RHash (hash_update (survey_fields s) h0), Some (now + real SURVEY_TTL))"
    by auto
  then have "entry_after now ?K (surveys_pipeline ss) e
       = Some (RHash (hash_update (survey_fields s) h0), Some (now + real SURVEY_TTL))"
    by (simp only: cmds entry_after_append entry_after_other [OF other])
  then show ?thesis by auto
qed

lemma survey_fields_get:
  "dict_get (hash_update (survey_fields s) h0) ''id'' = Inr (str_int (SurveyID s))"
  "dict_get (hash_update (survey_fields s) h0) ''active'' = Inr (str_bool (Active s))"
  "dict_get (hash_update (survey_fields s) h0) ''name'' = Inr (Name s)"
  "dict_get (hash_update (survey_fields s) h0) ''start_time'' = Inr (StartTime s)"
  "dict_get (hash_update (survey_fields s) h0) ''end_time'' = Inr (EndTime s)"
  by (simp_all add: dict_get_def hash_update_def survey_fields_def update_conv')

lemma read_survey_stored:
  assumes "db (survey_key (str_int (SurveyID s)))
             = Some (RHash (hash_update (survey_fields s) h0), Some (now + real SURVEY_TTL))"
    and "maps_readable now db (str_int (SurveyID s))"
  shows "\<exists>ms. read_survey now db (str_int (SurveyID s))
           = Inr \<lparr>s_id = SurveyID s, s_name = Name s, s_active = Active s,
                  s_start_time = StartTime s, s_end_time = EndTime s, s_maps = ms\<rparr>"
proof -
  from assms(2) obtain n ids ms where
    n: "r_llen now db (survey_maps_key (str_int (SurveyID s))) = Inr n"
    and ids: "r_lrange now db (survey_maps_key (str_int (SurveyID s))) 0 (int n) = Inr ids"
    and ms: "read_maps now db (str_int (SurveyID s)) ids = Inr ms"
    unfolding maps_readable_def by blast
  have h: "r_hgetall now db (survey_key (str_int (SurveyID s)))
             = Inr (hash_update (survey_fields s) h0)"
    using assms(1) now_before_ttl [of now]
    by (simp add: r_hgetall_def lookup_def visible_def)
  have "read_survey now db (str_int (SurveyID s))
           = Inr \<lparr>s_id = SurveyID s, s_name = Name s, s_active = Active s,
                  s_start_time = StartTime s, s_end_time = EndTime s, s_maps = ms\<rparr>"
    by (simp add: read_survey_def h survey_fields_get py_int_str_int str2bool_str_bool n ids ms)
  then show ?thesis by blast
qed

lemma surveys_pipeline_keys:
  assumes "k \<in> key_of ` set (surveys_pipeline ss)"
  shows "k = ''occupeye:surveys'' \<or> (\<exists>i. k = survey_key (str_int i))"
  using assms by (auto simp: surveys_pipeline_def survey_cmds_def Let_def)

lemma surveys_pipeline_maps:
  "snd (run_cmds now (surveys_pipeline ss) db) (survey_maps_key x) = db (survey_maps_key x)"
  "snd (run_cmds now (surveys_pipeline ss) db) (survey_map_key x y) = db (survey_map_key x y)"
proof -
  have "survey_maps_key x \<notin> key_of ` set (surveys_pipeline ss)"
    using surveys_pipeline_keys [of "survey_maps_key x" ss] survey_key_not_area(1) [of _ x]
      token_keys_not_survey(7) [of x]
    by metis
  then show "snd (run_cmds now (surveys_pipeline ss) db) (survey_maps_key x)
               = db (survey_maps_key x)"
    by (simp add: run_cmds_entry entry_after_other)
  have "survey_map_key x y \<notin> key_of ` set (surveys_pipeline ss)"
    using surveys_pipeline_keys [of "survey_map_key x y" ss] survey_key_not_area(2) [of _ x y]
      token_keys_not_survey(8) [of x y]
    by metis
  then show "snd (run_cmds now (surveys_pipeline ss) db) (survey_map_key x y)
               = db (survey_map_key x y)"
    by (simp add: run_cmds_entry entry_after_other)
qed

lemma fits_surveys_pipeline: "list_all fits (surveys_pipeline ss)"
  using fits_survey_cmds by (auto simp: surveys_pipeline_def list_all_iff fits_no_kind)

subsection \<open>The survey populator and \<^verbatim>\<open>get_surveys\<close> on a store without surveys\<close>

lemma cache_survey_data_ok:
  assumes tk: "token_endpoint up = Some tk" and c: "credential_ok st" and t: "typed (r st)"
    and ss: "surveys_endpoint up = Some ss"
    and ms: "\<forall>s \<in> set ss. maps_endpoint up (str_int (SurveyID s)) \<noteq> None"
    and d: "distinct (map SurveyID ss)"
  shows "\<exists>st'. cache_survey_data up now st = (Inr (), st')
           \<and> lookup now (r st') ''occupeye:surveys''
               = (if ss = [] then None
                  else Some (RList (rev (map (\<lambda>s. str_int (SurveyID s)) ss))))
           \<and> (\<forall>s \<in> set ss. \<exists>h0. r st' (survey_key (str_int (SurveyID s)))
                 = Some (RHash (hash_update (survey_fields s) h0), Some (now + real SURVEY_TTL)))
           \<and> (\<forall>s \<in> set ss. maps_readable now (r st') (str_int (SurveyID s)))"
proof -
  from get_bearer_token_ok [OF tk c t, of now] obtain b st1 where
    g: "get_bearer_token up now st = (Inr b, st1)"
    and c1: "credential_ok st1" and t1: "typed (r st1)"
    by blast
  let ?st2 = "st1\<lparr>sent := sent st1 @ [GetSurveys]\<rparr>"
  have c2: "credential_ok ?st2" using c1 by (simp add: credential_ok_def)
  have t2: "typed (r ?st2)" using t1 by simp
  from cache_surveys_loop_ok [OF tk c2 t2 ms d, of now "[DEL ''occupeye:surveys'']"]
  obtain st3 where
    l: "cache_surveys_loop up now ss [DEL ''occupeye:surveys''] ?st2
          = (Inr ([DEL ''occupeye:surveys''] @ concat (map survey_cmds ss)), st3)"
    and t3: "typed (r st3)"
    and rd3: "\<forall>s \<in> set ss. maps_readable now (r st3) (str_int (SurveyID s))"
    by blast
  let ?db = "snd (run_cmds now (surveys_pipeline ss) (r st3))"
  from execute_typed [OF t3 fits_surveys_pipeline, of now ss]
  have ex: "execute now (surveys_pipeline ss) (r st3)
              = (Inr (fst (run_cmds now (surveys_pipeline ss) (r st3))), ?db)"
    by simp
  have res: "cache_survey_data up now st = (Inr (), st3\<lparr>r := ?db\<rparr>)"
    using g ss l ex by (simp add: cache_survey_data_def Let_def surveys_pipeline_def)
  have lst: "lookup now (r (st3\<lparr>r := ?db\<rparr>)) ''occupeye:surveys''
               = (if ss = [] then None
                  else Some (RList (rev (map (\<lambda>s. str_int (SurveyID s)) ss))))"
    using now_before_ttl [of now]
    by (simp add: lookup_def run_cmds_entry surveys_pipeline_list visible_def)
  have hs: "\<forall>s \<in> set ss. \<exists>h0. r (st3\<lparr>r := ?db\<rparr>) (survey_key (str_int (SurveyID s)))
                 = Some (RHash (hash_update (survey_fields s) h0), Some (now + real SURVEY_TTL))"
  proof
    fix s assume s: "s \<in> set ss"
    have "\<forall>v t. r st3 (survey_key (str_int (SurveyID s))) = Some (v, t) \<longrightarrow> kind_of v = KHash"
      using t3 key_kind_survey_key [of "SurveyID s"] by (simp add: typed_def)
    from surveys_pipeline_hash [OF s d this, of now]
    show "\<exists>h0. r (st3\<lparr>r := ?db\<rparr>) (survey_key (str_int (SurveyID s)))
                 = Some (RHash (hash_update (survey_fields s) h0), Some (now + real SURVEY_TTL))"
      by (simp add: run_cmds_entry)
  qed
  have rd: "\<forall>s \<in> set ss. maps_readable now (r (st3\<lparr>r := ?db\<rparr>)) (str_int (SurveyID s))"
  proof
    fix s assume s: "s \<in> set ss"
    have "maps_readable now ?db (str_int (SurveyID s))
            = maps_readable now (r st3) (str_int (SurveyID s))"
      by (rule maps_readable_cong) (simp_all add: surveys_pipeline_maps)
    with rd3 s show "maps_readable now (r (st3\<lparr>r := ?db\<rparr>)) (str_int (SurveyID s))" by simp
  qed
  show ?thesis
    by (rule exI [of _ "st3\<lparr>r := ?db\<rparr>"]) (intro conjI res lst hs rd)
qed

lemma read_surveys_all:
  assumes "\<forall>s \<in> set xs. \<exists>ms. read_survey now db (str_int (SurveyID s))
           = Inr \<lparr>s_id = SurveyID s, s_name = Name s, s_active = Active s,
                  s_start_time = StartTime s, s_end_time = EndTime s, s_maps = ms\<rparr>"
  shows "\<exists>res. read_surveys now db (map (\<lambda>s. str_int (SurveyID s)) xs) = Inr res
           \<and> map s_id res = map SurveyID xs \<and> map s_active res = map Active xs
           \<and> map (\<lambda>d. (s_id d, s_active d)) res = map (\<lambda>s. (SurveyID s, Active s)) xs"
  using assms
proof (induction xs)
  case Nil
  then show ?case by simp
next
  case (Cons x xs)
  from Cons.prems obtain ms where
    x: "read_survey now db (str_int (SurveyID x))
           = Inr \<lparr>s_id = SurveyID x, s_name = Name x, s_active = Active x,
                  s_start_time = StartTime x, s_end_time = EndTime x, s_maps = ms\<rparr>"
    by auto
  from Cons.prems have "\<forall>s \<in> set xs. \<exists>ms. read_survey now db (str_int (SurveyID s))
           = Inr \<lparr>s_id = SurveyID s, s_name = Name s, s_active = Active s,
                  s_start_time = StartTime s, s_end_time = EndTime s, s_maps = ms\<rparr>"
    by simp
  from Cons.IH [OF this] obtain res where
    "read_surveys now db (map (\<lambda>s. str_int (SurveyID s)) xs) = Inr res"
    "map s_id res = map SurveyID xs" "map s_active res = map Active xs"
    "map (\<lambda>d. (s_id d, s_active d)) res = map (\<lambda>s. (SurveyID s, Active s)) xs"
    by blast
  with x show ?case by simp
qed

lemma get_surveys_refresh:
  assumes empty: "r_llen now (r st) ''occupeye:surveys'' = Inr 0"
    and tk: "token_endpoint up = Some tk" and c: "credential_ok st" and t: "typed (r st)"
    and ss: "surveys_endpoint up = Some ss"
    and ms: "\<forall>s \<in> set ss. maps_endpoint up (str_int (SurveyID s)) \<noteq> None"
    and d: "distinct (map SurveyID ss)"
  shows "\<exists>res st'. get_surveys up now st = (Inr res, st')
           \<and> cache_survey_data up now st = (Inr (), st')
           \<and> map s_id res = rev (map SurveyID ss)
           \<and> map s_active res = rev (map Active ss)
           \<and> map (\<lambda>d. (s_id d, s_active d)) res = rev (map (\<lambda>s. (SurveyID s, Active s)) ss)
           \<and> r_lrange now (r st') ''occupeye:surveys'' 0 (- 1)
               = Inr (rev (map (\<lambda>s. str_int (SurveyID s)) ss))
           \<and> (\<forall>s \<in> set ss. \<exists>h. r_hgetall now (r st') (survey_key (str_int (SurveyID s))) = Inr h
                  \<and> dict_get h ''active'' = Inr (str_bool (Active s)))"
proof -
  from cache_survey_data_ok [OF tk c t ss ms d, of now] obtain st' where
    cd: "cache_survey_data up now st = (Inr (), st')"
    and l: "lookup now (r st') ''occupeye:surveys''
               = (if ss = [] then None
                  else Some (RList (rev (map (\<lambda>s. str_int (SurveyID s)) ss))))"
    and hs: "\<forall>s \<in> set ss. \<exists>h0. r st' (survey_key (str_int (SurveyID s)))
                 = Some (RHash (hash_update (survey_fields s) h0), Some (now + real SURVEY_TTL))"
    and rd: "\<forall>s \<in> set ss. maps_readable now (r st') (str_int (SurveyID s))"
    by blast
  let ?ids = "map (\<lambda>s. str_int (SurveyID s)) (rev ss)"
  have len: "r_llen now (r st') ''occupeye:surveys'' = Inr (length ?ids)"
    using l by (simp add: r_llen_def rev_map)
  have rng: "r_lrange now (r st') ''occupeye:surveys'' 0 (int (length ?ids) - 1) = Inr ?ids"
    using l list_range_all' [of ?ids] by (simp add: r_lrange_def rev_map)
  have "\<forall>s \<in> set (rev ss). \<exists>ms. read_survey now (r st') (str_int (SurveyID s))
           = Inr \<lparr>s_id = SurveyID s, s_name = Name s, s_active = Active s,
                  s_start_time = StartTime s, s_end_time = EndTime s, s_maps = ms\<rparr>"
    using hs rd read_survey_stored [of "r st'" _ _ now] by (metis set_rev)
  from read_surveys_all [OF this] obtain res where
    rs: "read_surveys now (r st') ?ids = Inr res"
    and a: "map s_id res = map SurveyID (rev ss)" "map s_active res = map Active (rev ss)"
      "map (\<lambda>d. (s_id d, s_active d)) res = map (\<lambda>s. (SurveyID s, Active s)) (rev ss)"
    by blast
  have whole: "r_lrange now (r st') ''occupeye:surveys'' 0 (- 1)
                 = Inr (rev (map (\<lambda>s. str_int (SurveyID s)) ss))"
    using l by (simp add: r_lrange_def list_range_def Let_def)
  have serve: "serve_surveys now st' = (Inr res, st')"
    unfolding serve_surveys_def by (simp only: len rng rs sum.case)
  have g: "get_surveys up now st = (Inr res, st')"
    by (simp add: get_surveys_def empty cd serve)
  have st: "\<forall>s \<in> set ss. \<exists>h. r_hgetall now (r st') (survey_key (str_int (SurveyID s))) = Inr h
                  \<and> dict_get h ''active'' = Inr (str_bool (Active s))"
  proof
    fix s assume "s \<in> set ss"
    with hs obtain h0 where "r st' (survey_key (str_int (SurveyID s)))
                 = Some (RHash (hash_update (survey_fields s) h0), Some (now + real SURVEY_TTL))"
      by blast
    then have "r_hgetall now (r st') (survey_key (str_int (SurveyID s)))
                 = Inr (hash_update (survey_fields s) h0)"
      using now_before_ttl [of now] by (simp add: r_hgetall_def lookup_def visible_def)
    then show "\<exists>h. r_hgetall now (r st') (survey_key (str_int (SurveyID s))) = Inr h
                  \<and> dict_get h ''active'' = Inr (str_bool (Active s))"
      by (simp add: survey_fields_get)
  qed
  from g cd a whole st show ?thesis by (simp add: rev_map)
qed

subsection \<open>The requests of a refresh\<close>

lemma get_bearer_token_sent_mono:
  "set (sent st) \<subseteq> set (sent (snd (get_bearer_token up now st)))"
  using get_token_sent [of up now st]
  by (auto simp: get_bearer_token_def bearer_def
           split: sum.splits bool.splits prod.splits option.splits)

lemma cache_maps_for_survey_sent:
  assumes "cache_maps_for_survey up now i st = (Inr u, st')"
  shows "set (sent st) \<subseteq> set (sent st') \<and> GetMaps (str_int i) \<in> set (sent st')"
proof -
  obtain a st1 where g: "get_bearer_token up now st = (a, st1)"
    by (cases "get_bearer_token up now st")
  have m: "set (sent st) \<subseteq> set (sent st1)"
    using get_bearer_token_sent_mono [of st up now] g by simp
  from assms g have "sent st' = sent st1 @ [GetMaps (str_int i)]"
    by (auto simp: cache_maps_for_survey_def Let_def
             split: sum.splits prod.splits option.splits)
  with m show ?thesis by auto
qed

lemma cache_surveys_loop_sent:
  assumes "cache_surveys_loop up now ss p st = (Inr q, st')"
  shows "set (sent st) \<subseteq> set (sent st')
       \<and> (\<forall>s \<in> set ss. GetMaps (str_int (SurveyID s)) \<in> set (sent st'))"
  using assms
proof (induction ss arbitrary: p st)
  case Nil
  then show ?case by simp
next
  case (Cons s ss)
  from Cons.prems obtain u st1 where
    a: "cache_maps_for_survey up now (SurveyID s) st = (Inr u, st1)"
    and b: "cache_surveys_loop up now ss (p @ survey_cmds s) st1 = (Inr q, st')"
    by (auto split: sum.splits prod.splits)
  from cache_maps_for_survey_sent [OF a] Cons.IH [OF b] show ?case by auto
qed

lemma cache_survey_data_maps_sent:
  assumes "cache_survey_data up now st = (Inr u, st')" and "surveys_endpoint up = Some ss"
  shows "\<forall>s \<in> set ss. GetMaps (str_int (SurveyID s)) \<in> set (sent st')"
proof -
  obtain a st1 where g: "get_bearer_token up now st = (a, st1)"
    by (cases "get_bearer_token up now st")
  from assms g obtain q st3 where
    l: "cache_surveys_loop up now ss [DEL ''occupeye:surveys'']
          (st1\<lparr>sent := sent st1 @ [GetSurveys]\<rparr>) = (Inr q, st3)"
    and s: "sent st' = sent st3"
    by (auto simp: cache_survey_data_def Let_def split: sum.splits prod.splits)
  from cache_surveys_loop_sent [OF l] s show ?thesis by simp
qed

lemma descending_distinct: "sorted_wrt (>) (xs :: int list) \<Longrightarrow> distinct xs"
  by (induction xs) auto

lemma r_llen_empty: "r_llen now Map.empty k = Inr 0"
  by (simp add: r_llen_def lookup_def visible_def)

lemma init_credential_ok:
  assumes "init test_mode up now db = (Inr u, st)"
  shows "credential_ok st"
  using assms
  by (auto simp: init_def Let_def credential_ok_def get_token_def
           split: if_splits sum.splits option.splits prod.splits)

subsection \<open>\<^verbatim>\<open>get_surveys\<close> on an empty cache\<close>

text \<open>
  C4.  The object holds an empty cache and a usable credential (as every object that
  \<^verbatim>\<open>__init__\<close> returns does, see \<open>init_credential_ok\<close>); the token endpoint answers, the
  survey endpoint answers with the surveys \<open>ss\<close> in strictly descending order of id, and the
  map endpoint answers for each of them.  Then \<^verbatim>\<open>get_surveys\<close> returns, and it ends in the
  state in which \<^verbatim>\<open>_cache_survey_data\<close> ends: one request for the surveys has been sent and
  the maps of each survey have been requested.  The list \<^verbatim>\<open>occupeye:surveys\<close> holds the ids in
  the reverse of the upstream order, each id having been pushed at its head, and the surveys
  returned have their ids in that order, which is strictly ascending.
\<close>

theorem get_surveys_fresh_ascending:
  assumes "r st = Map.empty" and "credential_ok st"
    and "token_endpoint up = Some tk" and "surveys_endpoint up = Some ss"
    and "\<forall>s \<in> set ss. maps_endpoint up (str_int (SurveyID s)) \<noteq> None"
    and "sorted_wrt (>) (map SurveyID ss)"
  shows "\<exists>res st'. get_surveys up now st = (Inr res, st')
           \<and> cache_survey_data up now st = (Inr (), st')
           \<and> count_list (sent st') GetSurveys = count_list (sent st) GetSurveys + 1
           \<and> (\<forall>s \<in> set ss. GetMaps (str_int (SurveyID s)) \<in> set (sent st'))
           \<and> r_lrange now (r st') ''occupeye:surveys'' 0 (- 1)
               = Inr (rev (map (\<lambda>s. str_int (SurveyID s)) ss))
           \<and> map s_id res = rev (map SurveyID ss)
           \<and> sorted_wrt (<) (map s_id res)"
proof -
  have e: "r_llen now (r st) ''occupeye:surveys'' = Inr 0"
    using assms(1) by (simp add: r_llen_empty)
  have t: "typed (r st)" using assms(1) by (simp add: typed_empty)
  have d: "distinct (map SurveyID ss)" using assms(6) by (rule descending_distinct)
  from get_surveys_refresh [OF e assms(3) assms(2) t assms(4) assms(5) d] obtain res st' where
    g: "get_surveys up now st = (Inr res, st')"
    and c: "cache_survey_data up now st = (Inr (), st')"
    and ids: "map s_id res = rev (map SurveyID ss)"
    and l: "r_lrange now (r st') ''occupeye:surveys'' 0 (- 1)
               = Inr (rev (map (\<lambda>s. str_int (SurveyID s)) ss))"
    by blast
  have n: "count_list (sent st') GetSurveys = count_list (sent st) GetSurveys + 1"
    using c by (rule cache_survey_data_surveys)
  have m: "\<forall>s \<in> set ss. GetMaps (str_int (SurveyID s)) \<in> set (sent st')"
    using c assms(4) by (rule cache_survey_data_maps_sent)
  have a: "sorted_wrt (<) (map s_id res)"
    unfolding ids using assms(6) by (simp add: sorted_wrt_rev)
  from g c n m l ids a show ?thesis by blast
qed

lemma demo_surveys_answers:
  "token_endpoint demo_surveys = Some (''tok'', 3600)"
  "surveys_endpoint demo_surveys = Some [survey_43, survey_42]"
  "\<forall>s \<in> set [survey_43, survey_42]. maps_endpoint demo_surveys (str_int (SurveyID s)) \<noteq> None"
  "map SurveyID [survey_43, survey_42] = [43, 42]"
  "map Active [survey_43, survey_42] = [True, False]"
  by (simp_all add: demo_surveys_def demo_upstream_def survey_43_def survey_42_def)

lemma fresh_usable:
  "r fresh = Map.empty" "credential_ok fresh" "access_token fresh = None" "sent fresh = []"
  by (simp_all add: fresh_def credential_ok_def)

theorem get_surveys_fresh_ascending_witness:
  "r fresh = Map.empty \<and> access_token fresh = None
   \<and> token_endpoint demo_surveys = Some (''tok'', 3600)
   \<and> surveys_endpoint demo_surveys = Some [survey_43, survey_42]
   \<and> map SurveyID [survey_43, survey_42] = [43, 42]
   \<and> (\<exists>res st'. get_surveys demo_surveys 1000 fresh = (Inr res, st')
          \<and> count_list (sent st') GetSurveys = 1
          \<and> map s_id res = [42, 43])"
proof -
  have s: "sorted_wrt (>) (map SurveyID [survey_43, survey_42])"
    by (simp add: survey_43_def survey_42_def)
  from get_surveys_fresh_ascending
         [OF fresh_usable(1,2) demo_surveys_answers(1,2,3) s, of 1000]
  obtain res st' where
    "get_surveys demo_surveys 1000 fresh = (Inr res, st')"
    "count_list (sent st') GetSurveys = count_list (sent fresh) GetSurveys + 1"
    "map s_id res = rev (map SurveyID [survey_43, survey_42])"
    by blast
  then have "\<exists>res st'. get_surveys demo_surveys 1000 fresh = (Inr res, st')
          \<and> count_list (sent st') GetSurveys = 1
          \<and> map s_id res = [42, 43]"
    by (simp add: fresh_usable(4) survey_43_def survey_42_def)
  with fresh_usable(1,3) demo_surveys_answers(1,2,4) show ?thesis by blast
qed



end
